theory Spec2Isabelle
  imports Complex_Main "HOL-Library.Word" "HOL-Library.Extended_Nat"
begin

section \<open>JavaScript strings\<close>

text \<open>
  A JavaScript string is a sequence of UTF-16 code units. String literals of the source
  are written through \<open>js\<close>, which maps each ASCII character to its code unit.
\<close>

type_synonym jschar = "16 word"
type_synonym jsstring = "jschar list"

definition js :: "string \<Rightarrow> jsstring" where
  "js s = map of_char s"

definition LF :: jschar where "LF = 0x0A"
definition CR :: jschar where "CR = 0x0D"

text \<open>
  The code units removed by \<open>String.prototype.trim\<close>: the WhiteSpace and LineTerminator
  productions of ECMAScript (TAB, LF, VT, FF, CR, SP, NBSP, the Unicode space separators,
  LS, PS and the byte order mark).
\<close>

definition is_ws :: "jschar \<Rightarrow> bool" where
  "is_ws c \<longleftrightarrow>
     c = 0x09 \<or> c = 0x0A \<or> c = 0x0B \<or> c = 0x0C \<or> c = 0x0D \<or> c = 0x20 \<or> c = 0xA0 \<or>
     c = 0x1680 \<or> (0x2000 \<le> c \<and> c \<le> 0x200A) \<or> c = 0x2028 \<or> c = 0x2029 \<or>
     c = 0x202F \<or> c = 0x205F \<or> c = 0x3000 \<or> c = 0xFEFF"

definition trim :: "jsstring \<Rightarrow> jsstring" where
  "trim s = rev (dropWhile is_ws (rev (dropWhile is_ws s)))"

definition is_digit :: "jschar \<Rightarrow> bool" where
  "is_digit c \<longleftrightarrow> 0x30 \<le> c \<and> c \<le> 0x39"

definition DOT :: jschar where "DOT = 0x2E"

text \<open>The value of a run of decimal digits, most significant digit first.\<close>

definition digits_value :: "jsstring \<Rightarrow> nat" where
  "digits_value ds = foldl (\<lambda>acc c. 10 * acc + (unat c - 48)) 0 ds"

section \<open>JavaScript numbers\<close>

text \<open>
  A JavaScript number is an IEEE-754 double. The finite values are carried by their exact
  value, the infinities are separate; \<open>NaN\<close> is kept apart, as the absence of a number,
  where it can arise. The sign of zero is not distinguished.
\<close>

datatype 'a jsnumber = Num 'a | PosInfinity | NegInfinity

text \<open>The number of binary digits of \<open>n\<close>.\<close>

function bit_length :: "nat \<Rightarrow> nat" where
  "bit_length n = (if n = 0 then 0 else Suc (bit_length (n div 2)))"
  by pat_completeness auto
termination
  by (relation "measure id") auto

lemmas bit_length_simps = bit_length.simps

declare bit_length.simps [simp del]

text \<open>\<open>2 ^ k \<le> a / b\<close> for an integer \<open>k\<close>, in natural-number arithmetic.\<close>

definition pow2_le :: "int \<Rightarrow> nat \<Rightarrow> nat \<Rightarrow> bool" where
  "pow2_le k a b = (if 0 \<le> k then 2 ^ nat k * b \<le> a else b \<le> a * 2 ^ nat (- k))"

text \<open>
  The binary exponent of the positive rational \<open>a / b\<close>: the \<open>k\<close> with
  \<open>2 ^ k \<le> a / b < 2 ^ (k + 1)\<close>. The difference of the bit lengths is that \<open>k\<close> or one
  more.
\<close>

definition floor_log2 :: "nat \<Rightarrow> nat \<Rightarrow> int" where
  "floor_log2 a b =
     (let k = int (bit_length a) - int (bit_length b)
      in if pow2_le k a b then k else k - 1)"

text \<open>The integer nearest to \<open>num / den\<close>, the even one of the two on a tie.\<close>

definition round_half_even :: "nat \<Rightarrow> nat \<Rightarrow> nat" where
  "round_half_even num den =
     (let q = num div den; r = num mod den
      in if 2 * r < den then q
         else if den < 2 * r then q + 1
         else if even q then q else q + 1)"

text \<open>The integer nearest to \<open>(a / b) / 2 ^ e\<close>, ties to even.\<close>

definition mantissa :: "nat \<Rightarrow> nat \<Rightarrow> int \<Rightarrow> nat" where
  "mantissa a b e =
     (if 0 \<le> e then round_half_even a (b * 2 ^ nat e)
      else round_half_even (a * 2 ^ nat (- e)) b)"

text \<open>
  The double nearest to the rational \<open>a / b\<close> (with \<open>b\<close> positive), rounding to nearest and
  ties to even, as the pair of an integer \<open>m\<close> and an exponent \<open>e\<close> that stand for
  \<open>m * 2 ^ e\<close>. The exponent is that of the last place of a 53-bit significand, and not
  below \<open>- 1074\<close>, the last place of the subnormal numbers. The result is \<open>None\<close> when the
  rounded value reaches \<open>2 ^ 1024\<close>: the conversion overflows to infinity.
\<close>

definition nearest_double :: "nat \<Rightarrow> nat \<Rightarrow> (nat \<times> int) option" where
  "nearest_double a b =
     (if a = 0 then Some (0, 0)
      else
        (let e = max (floor_log2 a b - 52) (- 1074);
             m = mantissa a b e
         in if 0 \<le> e \<and> 2 ^ 1024 \<le> m * 2 ^ nat e then None else Some (m, e)))"

text \<open>The number value of the non-negative rational \<open>a / b\<close>.\<close>

definition double_value :: "nat \<Rightarrow> nat \<Rightarrow> rat jsnumber" where
  "double_value a b =
     (case nearest_double a b of
        None \<Rightarrow> PosInfinity
      | Some (m, e) \<Rightarrow> Num (of_nat m * 2 powi e))"

text \<open>
  The number value of the integer \<open>n\<close>. It is an integer again: with a negative exponent
  the mantissa of an integer is a multiple of \<open>2 ^ (- e)\<close>.
\<close>

definition double_of_int :: "int \<Rightarrow> int jsnumber" where
  "double_of_int n =
     (case nearest_double (nat \<bar>n\<bar>) 1 of
        None \<Rightarrow> if 0 < n then PosInfinity else NegInfinity
      | Some (m, e) \<Rightarrow>
          Num (sgn n * (if 0 \<le> e then int m * 2 ^ nat e else int m div 2 ^ nat (- e))))"

section \<open>DataTransformer.sanitizeText\<close>

text \<open>\<open>.replace(/\r\n/g, '\n')\<close>: a left-to-right scan replacing each CR LF pair.\<close>

fun replace_crlf :: "jsstring \<Rightarrow> jsstring" where
  "replace_crlf (a # b # r) =
     (if a = CR \<and> b = LF then LF # replace_crlf r else a # replace_crlf (b # r))"
| "replace_crlf [a] = [a]"
| "replace_crlf [] = []"

text \<open>\<open>.replace(/\r/g, '\n')\<close>\<close>

definition replace_cr :: "jsstring \<Rightarrow> jsstring" where
  "replace_cr s = map (\<lambda>c. if c = CR then LF else c) s"

text \<open>
  \<open>.replace(/\n{3,}/g, '\n\n')\<close>: at each position the greedy quantifier takes the whole
  run of LF; a run of three or more is replaced by two, otherwise the scan moves on by one
  code unit.
\<close>

function collapse_newlines :: "jsstring \<Rightarrow> jsstring" where
  "collapse_newlines s =
     (if 3 \<le> length (takeWhile (\<lambda>c. c = LF) s)
      then LF # LF # collapse_newlines (dropWhile (\<lambda>c. c = LF) s)
      else (case s of [] \<Rightarrow> [] | c # r \<Rightarrow> c # collapse_newlines r))"
  by pat_completeness auto
termination
proof (relation "measure length")
  show "wf (measure length)" by simp
next
  fix s :: jsstring
  assume "3 \<le> length (takeWhile (\<lambda>c. c = LF) s)"
  moreover have "length (takeWhile (\<lambda>c. c = LF) s) + length (dropWhile (\<lambda>c. c = LF) s) = length s"
    by (simp flip: length_append)
  ultimately have "length (dropWhile (\<lambda>c. c = LF) s) < length s"
    by arith
  then show "(dropWhile (\<lambda>c. c = LF) s, s) \<in> measure length" by simp
next
  fix s :: jsstring and c r
  assume "s = c # r"
  then show "(r, s) \<in> measure length" by simp
qed

definition sanitizeText :: "jsstring \<Rightarrow> jsstring" where
  "sanitizeText text =
     (if text = [] then []
      else collapse_newlines (replace_cr (replace_crlf (trim text))))"

lemmas collapse_newlines_simps = collapse_newlines.simps

declare collapse_newlines.simps [simp del]

text \<open>
  Auxiliary notions for stating and proving the absence of long LF runs: the length of the
  leading run of LF, and whether a run of three LF occurs anywhere.
\<close>

definition lead :: "jsstring \<Rightarrow> nat" where
  "lead s = length (takeWhile (\<lambda>c. c = LF) s)"

fun has_lf3 :: "jsstring \<Rightarrow> bool" where
  "has_lf3 [] = False"
| "has_lf3 (c # r) = ((c = LF \<and> 2 \<le> lead r) \<or> has_lf3 r)"

section \<open>DataTransformer.parseRating\<close>

text \<open>
  One attempt of the pattern \<open>(\d+(?:\.\d+)?)\<close> at the start of \<open>s\<close>: the greedy
  \<open>\d+\<close> takes the whole run of digits; the optional group is taken when a dot and
  at least one digit follow. The result is capture group 1.
\<close>

definition match_number_at :: "jsstring \<Rightarrow> jsstring option" where
  "match_number_at s =
     (let ip = takeWhile is_digit s; r = dropWhile is_digit s
      in if ip = [] then None
         else (case r of
                 [] \<Rightarrow> Some ip
               | c # r' \<Rightarrow>
                   if c = DOT \<and> takeWhile is_digit r' \<noteq> []
                   then Some (ip @ DOT # takeWhile is_digit r')
                   else Some ip))"

text \<open>\<open>trimmed.match(/(\d+(?:\.\d+)?)/)\<close>: the leftmost position at which the pattern matches.\<close>

fun regex_number_match :: "jsstring \<Rightarrow> jsstring option" where
  "regex_number_match [] = None"
| "regex_number_match (c # s) =
     (case match_number_at (c # s) of
        Some m \<Rightarrow> Some m
      | None \<Rightarrow> regex_number_match s)"

text \<open>
  \<open>parseFloat\<close> on a matched token \<open>digits\<close> or \<open>digits.digits\<close>: the double nearest to
  the decimal value of the token.
\<close>

definition parseFloat :: "jsstring \<Rightarrow> rat jsnumber" where
  "parseFloat m =
     (let ip = takeWhile is_digit m; r = dropWhile is_digit m
      in case r of
           [] \<Rightarrow> double_value (digits_value ip) 1
         | c # fp \<Rightarrow>
             double_value (digits_value ip * 10 ^ length fp + digits_value fp) (10 ^ length fp))"

definition parseRating :: "jsstring \<Rightarrow> rat" where
  "parseRating ratingString =
     (if ratingString = [] then 0
      else (case regex_number_match (trim ratingString) of
              Some m \<Rightarrow>
                (case parseFloat m of
                   Num rating \<Rightarrow> if rating \<ge> 1 \<and> rating \<le> 5 then rating else 0
                 | PosInfinity \<Rightarrow> 0
                 | NegInfinity \<Rightarrow> 0)
            | None \<Rightarrow> 0))"

text \<open>
  For the statements about tokens: the decimal value of a run of digits, position by
  position, and the rating returned for a parsed number.
\<close>

abbreviation positional_value :: "jsstring \<Rightarrow> nat" where
  "positional_value ds \<equiv> (\<Sum>i<length ds. (unat (ds ! i) - 48) * 10 ^ (length ds - Suc i))"

abbreviation rating_of :: "rat jsnumber \<Rightarrow> rat" where
  "rating_of x \<equiv>
     (case x of
        Num rating \<Rightarrow> if 1 \<le> rating \<and> rating \<le> 5 then rating else 0
      | PosInfinity \<Rightarrow> 0
      | NegInfinity \<Rightarrow> 0)"

section \<open>RateLimiter\<close>

text \<open>
  A thrown value, as far as the code inspects it: \<open>error.message\<close>, \<open>error.status\<close>,
  \<open>error.response.status\<close> and \<open>error.response.headers['retry-after']\<close>. A field that is
  absent (or, for the status fields, not a number) is \<open>None\<close>.
\<close>

record js_response =
  r_status :: "int option"
  r_retry_after :: "jsstring option"

record js_error =
  message :: "jsstring option"
  status :: "int option"
  response :: "js_response option"

record RetryConfig =
  maxRetries :: int
  baseDelay :: int
  maxDelay :: int

text \<open>
  The fields of the configuration are integers. For a positive \<open>baseDelay\<close> the
  \<open>Math.min\<close> of the double \<open>baseDelay * Math.pow(2, attempt)\<close> and \<open>maxDelay\<close> is the
  minimum over the integers: the product of a double and a power of two is exact below
  \<open>2 ^ 1024\<close>, and from there on it is \<open>Infinity\<close>, above every \<open>maxDelay\<close>.
\<close>

text \<open>
  \<open>parseInt(s, 10)\<close>: leading white space is skipped, an optional sign is read, then the
  longest run of decimal digits; \<open>NaN\<close> (here \<open>None\<close>) when that run is empty, and
  otherwise the number value of the integer read.
\<close>

definition parseInt :: "jsstring \<Rightarrow> int jsnumber option" where
  "parseInt s =
     (let t = dropWhile is_ws s;
          neg = (t \<noteq> [] \<and> hd t = 0x2D);
          u = (if t \<noteq> [] \<and> (hd t = 0x2B \<or> hd t = 0x2D) then tl t else t);
          ds = takeWhile is_digit u
      in if ds = [] then None
         else Some (double_of_int
                      (if neg then - int (digits_value ds) else int (digits_value ds))))"

text \<open>\<open>String.prototype.includes\<close>: \<open>pat\<close> occurs somewhere in \<open>s\<close>.\<close>

fun str_includes :: "jsstring \<Rightarrow> jsstring \<Rightarrow> bool" where
  "str_includes [] pat = (pat = [])"
| "str_includes (c # s) pat = (take (length pat) (c # s) = pat \<or> str_includes s pat)"

definition extractRetryAfter :: "js_error \<Rightarrow> int jsnumber option" where
  "extractRetryAfter error =
     (let fromHeader =
            (case response error of
               None \<Rightarrow> None
             | Some resp \<Rightarrow>
                 if r_status resp = Some 429
                 then (case r_retry_after resp of
                         None \<Rightarrow> None
                       | Some retryAfter \<Rightarrow> if retryAfter \<noteq> [] then parseInt retryAfter else None)
                 else None)
      in case fromHeader of
           Some parsed \<Rightarrow> Some parsed
         | None \<Rightarrow>
             if (case message error of None \<Rightarrow> False | Some m \<Rightarrow> str_includes m (js ''429''))
                \<or> status error = Some 429
             then Some (Num 60)
             else None)"

text \<open>\<open>retryAfter * 1000\<close>, a product of doubles.\<close>

definition times_1000 :: "int jsnumber \<Rightarrow> int jsnumber" where
  "times_1000 x =
     (case x of
        Num n \<Rightarrow> double_of_int (n * 1000)
      | PosInfinity \<Rightarrow> PosInfinity
      | NegInfinity \<Rightarrow> NegInfinity)"

text \<open>
  The \<open>for\<close> loop of \<open>retryWithBackoff\<close>, from \<open>attempt\<close> on. The operation is given by the
  outcome of each of its invocations (invocation \<open>k\<close> is the one made with \<open>attempt = k\<close>);
  the result is what the call returns (\<open>Inr\<close>) or throws (\<open>Inl\<close>), with the durations passed
  to \<open>sleep\<close>, in order. Thrown values are objects, so \<open>lastError || new Error(...)\<close> is
  \<open>lastError\<close> whenever an invocation has failed.
\<close>

definition no_attempt_error :: js_error where
  "no_attempt_error =
     \<lparr>message = Some (js ''Operation failed after retries''), status = None, response = None\<rparr>"

function retry_loop ::
  "RetryConfig \<Rightarrow> (nat \<Rightarrow> js_error + 'a) \<Rightarrow> nat \<Rightarrow> js_error option
   \<Rightarrow> (js_error + 'a) \<times> int jsnumber list"
where
  "retry_loop config operation attempt lastError =
     (if int attempt \<le> maxRetries config then
        (case operation attempt of
           Inr v \<Rightarrow> (Inr v, [])
         | Inl error \<Rightarrow>
             if int attempt = maxRetries config then (Inl error, [])
             else
               (let d = (case extractRetryAfter error of
                           Some retryAfter \<Rightarrow> times_1000 retryAfter
                         | None \<Rightarrow> Num (min (baseDelay config * 2 ^ attempt) (maxDelay config)));
                    (res, sleeps) = retry_loop config operation (attempt + 1) (Some error)
                in (res, d # sleeps)))
      else (Inl (case lastError of Some e \<Rightarrow> e | None \<Rightarrow> no_attempt_error), []))"
  by pat_completeness auto
termination
  by (relation "measure (\<lambda>(config, operation, attempt, lastError). nat (maxRetries config + 1 - int attempt))") auto

definition retryWithBackoff ::
  "(nat \<Rightarrow> js_error + 'a) \<Rightarrow> RetryConfig \<Rightarrow> (js_error + 'a) \<times> int jsnumber list" where
  "retryWithBackoff operation config = retry_loop config operation 0 None"

definition default_retry_config :: RetryConfig where
  "default_retry_config = \<lparr>maxRetries = 3, baseDelay = 1000, maxDelay = 8000\<rparr>"

definition plain_error :: "string \<Rightarrow> js_error" where
  "plain_error m = \<lparr>message = Some (js m), status = None, response = None\<rparr>"

lemmas retry_loop_simps = retry_loop.simps

declare retry_loop.simps [simp del]

text \<open>
  An operation given by the outcomes of its first invocations and the outcome of all later
  ones, two kinds of errors, and the sleep that follows failure \<open>k\<close>.
\<close>

definition scripted :: "(js_error + 'a) list \<Rightarrow> (js_error + 'a) \<Rightarrow> nat \<Rightarrow> js_error + 'a" where
  "scripted outcomes final k = (if k < length outcomes then outcomes ! k else final)"

definition rate_limited_error :: "string \<Rightarrow> js_error" where
  "rate_limited_error secs =
     \<lparr>message = None, status = None,
      response = Some \<lparr>r_status = Some 429, r_retry_after = Some (js secs)\<rparr>\<rparr>"

definition backoff_delay :: "RetryConfig \<Rightarrow> nat \<Rightarrow> js_error \<Rightarrow> int jsnumber" where
  "backoff_delay config k error =
     (case extractRetryAfter error of
        Some retryAfter \<Rightarrow> times_1000 retryAfter
      | None \<Rightarrow> Num (min (baseDelay config * 2 ^ k) (maxDelay config)))"

section \<open>ContentExtractor.extractField\<close>

text \<open>
  A call into the browser either throws or returns. A review container is known by what
  its DOM queries answer: \<open>element.$(selector)\<close>, \<open>element.$$('p')\<close> with the
  \<open>textContent()\<close> of each paragraph, and \<open>element.textContent()\<close>; a field element by its
  attributes and text (\<open>None\<close> is \<open>null\<close>).
\<close>

datatype 'a dom = Throws | Returns 'a

record field_element =
  fe_alt :: "jsstring option dom"
  fe_data_rating :: "jsstring option dom"
  fe_datetime :: "jsstring option dom"
  fe_textContent :: "jsstring option dom"

record container =
  c_query :: "jsstring \<Rightarrow> field_element option dom"
  c_paragraphs :: "jsstring option dom list dom"
  c_textContent :: "jsstring option dom"

text \<open>\<open>x || ''\<close> for a string or \<open>null\<close>.\<close>

definition or_empty :: "jsstring option \<Rightarrow> jsstring" where
  "or_empty x = (case x of None \<Rightarrow> [] | Some t \<Rightarrow> t)"

definition dom_bind :: "'a dom \<Rightarrow> ('a \<Rightarrow> 'b dom) \<Rightarrow> 'b dom" where
  "dom_bind m f = (case m of Throws \<Rightarrow> Throws | Returns x \<Rightarrow> f x)"

text \<open>The text read from a matched field element, before trimming.\<close>

definition field_text :: "jsstring \<Rightarrow> field_element \<Rightarrow> jsstring dom" where
  "field_text fieldName fieldElement =
     (if fieldName = js ''rating'' then
        dom_bind (fe_alt fieldElement) (\<lambda>a.
          if or_empty a \<noteq> [] then Returns (or_empty a)
          else dom_bind (fe_data_rating fieldElement) (\<lambda>d.
            if or_empty d \<noteq> [] then Returns (or_empty d)
            else dom_bind (fe_textContent fieldElement) (\<lambda>t. Returns (or_empty t))))
      else if fieldName = js ''date'' then
        dom_bind (fe_datetime fieldElement) (\<lambda>d.
          if or_empty d \<noteq> [] then Returns (or_empty d)
          else dom_bind (fe_textContent fieldElement) (\<lambda>t. Returns (or_empty t)))
      else dom_bind (fe_textContent fieldElement) (\<lambda>t. Returns (or_empty t)))"

text \<open>
  The loop over the selector candidates: the first selector whose element yields non-empty
  trimmed text wins; an exception inside the loop body moves on to the next selector.
\<close>

fun try_selectors :: "container \<Rightarrow> jsstring list \<Rightarrow> jsstring \<Rightarrow> jsstring option" where
  "try_selectors element [] fieldName = None"
| "try_selectors element (selector # selectors) fieldName =
     (case c_query element selector of
        Throws \<Rightarrow> try_selectors element selectors fieldName
      | Returns None \<Rightarrow> try_selectors element selectors fieldName
      | Returns (Some fieldElement) \<Rightarrow>
          (case field_text fieldName fieldElement of
             Throws \<Rightarrow> try_selectors element selectors fieldName
           | Returns text \<Rightarrow>
               if trim text \<noteq> [] then Some (trim text)
               else try_selectors element selectors fieldName))"

text \<open>
  The loop over the paragraphs of the container: the first paragraph whose trimmed text is
  longer than 20 code units is returned; \<open>Returns None\<close> when the loop ends without one.
\<close>

fun first_substantial :: "jsstring option dom list \<Rightarrow> jsstring option dom" where
  "first_substantial [] = Returns None"
| "first_substantial (p # ps) =
     (case p of
        Throws \<Rightarrow> Throws
      | Returns t \<Rightarrow>
          if trim (or_empty t) \<noteq> [] \<and> length (trim (or_empty t)) > 20
          then Returns (Some (trim (or_empty t)))
          else first_substantial ps)"

text \<open>
  \<open>s.split('\n')\<close>, scanning left to right; \<open>cur\<close> holds the current piece, reversed.
\<close>

fun split_lf_from :: "jsstring \<Rightarrow> jsstring \<Rightarrow> jsstring list" where
  "split_lf_from cur [] = [rev cur]"
| "split_lf_from cur (c # s) =
     (if c = LF then rev cur # split_lf_from [] s else split_lf_from (c # cur) s)"

definition split_lf :: "jsstring \<Rightarrow> jsstring list" where
  "split_lf s = split_lf_from [] s"

text \<open>
  \<open>allText.split('\n').map(l => l.trim()).filter(l => l.length > 20)\<close> and the
  \<open>reduce\<close> that keeps the longer of two lines (the later one on a tie).
\<close>

definition substantial_lines :: "jsstring \<Rightarrow> jsstring list" where
  "substantial_lines allText = filter (\<lambda>l. length l > 20) (map trim (split_lf allText))"

definition longest_line :: "jsstring list \<Rightarrow> jsstring option" where
  "longest_line lines =
     (case lines of
        [] \<Rightarrow> None
      | l # ls \<Rightarrow> Some (foldl (\<lambda>a b. if length a > length b then a else b) l ls))"

text \<open>The fallback for the text field; \<open>None\<close> when it finds nothing or a DOM call throws.\<close>

definition text_fallback :: "container \<Rightarrow> jsstring option" where
  "text_fallback element =
     (case c_paragraphs element of
        Throws \<Rightarrow> None
      | Returns paragraphs \<Rightarrow>
          (case first_substantial paragraphs of
             Throws \<Rightarrow> None
           | Returns (Some text) \<Rightarrow> Some text
           | Returns None \<Rightarrow>
               (case c_textContent element of
                  Throws \<Rightarrow> None
                | Returns t \<Rightarrow> longest_line (substantial_lines (trim (or_empty t))))))"

definition required_field_error :: "jsstring \<Rightarrow> js_error" where
  "required_field_error fieldName =
     \<lparr>message = Some (js ''Required field '' @ [0x22] @ fieldName @ [0x22] @ js '' not found''),
      status = None, response = None\<rparr>"

definition extractField ::
  "container \<Rightarrow> jsstring list \<Rightarrow> jsstring \<Rightarrow> bool \<Rightarrow> js_error + jsstring" where
  "extractField element selectors fieldName required =
     (case try_selectors element selectors fieldName of
        Some text \<Rightarrow> Inr text
      | None \<Rightarrow>
          (case (if fieldName = js ''text'' \<and> required then text_fallback element else None) of
             Some text \<Rightarrow> Inr text
           | None \<Rightarrow>
               if required then Inl (required_field_error fieldName) else Inr []))"

text \<open>\<open>REVIEW_SELECTORS.text\<close>\<close>

definition REVIEW_SELECTORS_text :: "jsstring list" where
  "REVIEW_SELECTORS_text =
     [js ''p[data-service-review-text-typography]'',
      js ''div[data-service-review-text]'',
      js ''p.review-content__text'',
      js ''[class*='' @ [0x22] @ js ''reviewContent'' @ [0x22] @ js '']'',
      js ''p[class*='' @ [0x22] @ js ''typography_body'' @ [0x22] @ js '']'',
      js ''[class*='' @ [0x22] @ js ''review-text'' @ [0x22] @ js '']'',
      js ''[class*='' @ [0x22] @ js ''reviewText'' @ [0x22] @ js '']'',
      js ''p[class*='' @ [0x22] @ js ''content'' @ [0x22] @ js '']'',
      js ''div[class*='' @ [0x22] @ js ''text'' @ [0x22] @ js '']'']"

text \<open>
  A container in which no selector matches and whose two paragraphs are both longer than
  20 code units, the second being the longer one.
\<close>

definition two_paragraph_container :: container where
  "two_paragraph_container =
     \<lparr>c_query = (\<lambda>selector. Returns None),
      c_paragraphs = Returns
        [Returns (Some (js ''Arrived on time, works.'')),
         Returns (Some (js ''The product arrived on time and works exactly as described.''))],
      c_textContent = Returns (Some (js ''Arrived on time, works. The product arrived on time and works exactly as described.''))\<rparr>"

definition short_paragraph :: "jsstring option dom \<Rightarrow> bool" where
  "short_paragraph p = (case p of Throws \<Rightarrow> False | Returns t \<Rightarrow> length (trim (or_empty t)) \<le> 20)"

text \<open>
  A container in which no selector matches, no paragraph is longer than 20 code units, and
  the full text has two lines longer than that.
\<close>

definition two_line_container :: container where
  "two_line_container =
     \<lparr>c_query = (\<lambda>selector. Returns None),
      c_paragraphs = Returns [Returns (Some (js ''Great!'')), Returns None],
      c_textContent = Returns (Some
        (js ''Great!'' @ [LF] @ js ''  Verified purchase in March  '' @ [LF]
         @ js ''Would recommend this shop to anyone'' @ [LF] @ js ''5 stars''))\<rparr>"

definition no_text_container :: container where
  "no_text_container =
     \<lparr>c_query = (\<lambda>selector. Returns None),
      c_paragraphs = Returns [Returns (Some (js ''Great!''))],
      c_textContent = Returns (Some (js ''Great!''))\<rparr>"

section \<open>DataTransformer.transform\<close>

record ReviewElement =
  re_rating :: jsstring
  re_text :: jsstring
  re_date :: jsstring
  re_reviewerName :: jsstring
  re_title :: "jsstring option"
  re_verified :: "bool option"

record TransformedReview =
  tr_rating :: rat
  tr_text :: jsstring
  tr_date :: jsstring
  tr_reviewerName :: jsstring
  tr_title :: jsstring
  tr_verified :: bool

text \<open>
  \<open>normalizeDate\<close> relies on the date-fns library and on the clock; it is the parameter
  \<open>normalizeDate\<close> of the transformation.
\<close>

definition transform :: "(jsstring \<Rightarrow> jsstring) \<Rightarrow> ReviewElement \<Rightarrow> TransformedReview" where
  "transform normalizeDate review =
     \<lparr>tr_rating = parseRating (re_rating review),
      tr_text = sanitizeText (re_text review),
      tr_date = normalizeDate (re_date review),
      tr_reviewerName = sanitizeText (re_reviewerName review),
      tr_title = (case re_title review of
                    None \<Rightarrow> []
                  | Some t \<Rightarrow> if t \<noteq> [] then sanitizeText t else []),
      tr_verified = (case re_verified review of None \<Rightarrow> False | Some b \<Rightarrow> b)\<rparr>"

section \<open>ScraperOrchestrator.scrape\<close>

text \<open>Decimal rendering of a number inside a template literal.\<close>

fun nat_to_string :: "nat \<Rightarrow> jsstring" where
  "nat_to_string n =
     (if n < 10 then [of_nat (48 + n)]
      else nat_to_string (n div 10) @ [of_nat (48 + n mod 10)])"

lemmas nat_to_string_simps = nat_to_string.simps

declare nat_to_string.simps [simp del]

text \<open>
  \<open>s.replace(pat, rep)\<close> with a string pattern: the first occurrence of \<open>pat\<close> is replaced.
  The replacement strings used by the code contain no \<open>$\<close>, so no replacement pattern is
  expanded.
\<close>

fun replace_first :: "jsstring \<Rightarrow> jsstring \<Rightarrow> jsstring \<Rightarrow> jsstring" where
  "replace_first [] pat rep = (if pat = [] then rep else [])"
| "replace_first (c # s) pat rep =
     (if take (length pat) (c # s) = pat then rep @ drop (length pat) (c # s)
      else c # replace_first s pat rep)"

record ScraperConfig =
  outputFilename :: jsstring
  maxPages :: enat

definition checkpointFilename :: "jsstring \<Rightarrow> nat \<Rightarrow> jsstring" where
  "checkpointFilename filename n =
     replace_first filename (js ''.csv'') (js ''_checkpoint_page'' @ nat_to_string n @ js ''.csv'')"

definition reviewKey :: "TransformedReview \<Rightarrow> jsstring" where
  "reviewKey review = tr_text review @ js ''|'' @ tr_reviewerName review @ js ''|'' @ tr_date review"

text \<open>
  The \<open>filter\<close> callback with its side effect on \<open>seenReviews\<close>: the kept reviews and
  the updated set.
\<close>

fun filter_unique ::
  "TransformedReview list \<Rightarrow> jsstring set \<Rightarrow> TransformedReview list \<times> jsstring set" where
  "filter_unique [] seen = ([], seen)"
| "filter_unique (review # reviews) seen =
     (if reviewKey review \<in> seen then filter_unique reviews seen
      else (case filter_unique reviews (insert (reviewKey review) seen) of
              (kept, seen') \<Rightarrow> (review # kept, seen')))"

text \<open>
  What the run does to the outside: calls of \<open>csvExporter.export\<close> (file name and
  records) and calls of \<open>logger.warn\<close>. Logging at the other levels is not traced.
\<close>

datatype event =
  ExportCall jsstring "TransformedReview list"
| LogWarn jsstring

record NavigationResult =
  nr_success :: bool
  nr_hasNextPage :: bool
  nr_error :: "jsstring option"

text \<open>
  The answers of the collaborators during one iteration of the loop: the extraction step
  (scrolling, waiting and \<open>extractReviews\<close>), the checkpoint export if one is made,
  \<open>detectNextPageButton\<close> and \<open>clickNextPage\<close>. \<open>Inl\<close> is a thrown error.
\<close>

record page_io =
  p_extract :: "js_error + ReviewElement list"
  p_checkpoint :: "js_error + jsstring"
  p_detect :: "js_error + bool"
  p_click :: "js_error + NavigationResult"

record loop_state =
  allReviews :: "TransformedReview list"
  seenReviews :: "jsstring set"
  pagesProcessed :: nat
  currentPage :: nat
  hasNextPage :: bool
  errors :: "jsstring list"
  events :: "event list"

definition error_message :: "js_error \<Rightarrow> jsstring" where
  "error_message e = (case message e of None \<Rightarrow> js ''undefined'' | Some m \<Rightarrow> m)"

text \<open>The checkpoint block, entered when \<open>pagesProcessed % 50 === 0\<close>.\<close>

definition checkpoint :: "ScraperConfig \<Rightarrow> page_io \<Rightarrow> loop_state \<Rightarrow> loop_state" where
  "checkpoint config p st =
     (let call = ExportCall (checkpointFilename (outputFilename config) (pagesProcessed st))
                   (allReviews st)
      in case p_checkpoint p of
           Inr path \<Rightarrow> st\<lparr>events := events st @ [call]\<rparr>
         | Inl checkpointError \<Rightarrow>
             st\<lparr>events := events st @
                   [call, LogWarn (js ''Failed to save checkpoint: '' @ error_message checkpointError)]\<rparr>)"

text \<open>
  The body of the inner \<open>try\<close>. \<open>Inl (e, s)\<close>: the error \<open>e\<close> was thrown in state \<open>s\<close>.
  \<open>Inr (b, s)\<close>: the body ended in state \<open>s\<close>, by \<open>break\<close> when \<open>b\<close> holds.
\<close>

definition page_body ::
  "(jsstring \<Rightarrow> jsstring) \<Rightarrow> ScraperConfig \<Rightarrow> page_io \<Rightarrow> loop_state
   \<Rightarrow> (js_error \<times> loop_state) + (bool \<times> loop_state)" where
  "page_body normalizeDate config p st =
     (case p_extract p of
        Inl e \<Rightarrow> Inl (e, st)
      | Inr rawReviews \<Rightarrow>
          (let transformedReviews = map (transform normalizeDate) rawReviews;
               uniqueReviews = fst (filter_unique transformedReviews (seenReviews st));
               seen = snd (filter_unique transformedReviews (seenReviews st));
               duplicateCount = length transformedReviews - length uniqueReviews;
               st1 = st\<lparr>seenReviews := seen,
                        events := events st @
                          (if duplicateCount > 0
                           then [LogWarn (js ''Filtered out '' @ nat_to_string duplicateCount
                                   @ js '' duplicate reviews on page ''
                                   @ nat_to_string (currentPage st))]
                           else [])\<rparr>;
               st2 = st1\<lparr>allReviews := allReviews st1 @ uniqueReviews,
                         pagesProcessed := pagesProcessed st1 + 1\<rparr>;
               st3 = (if pagesProcessed st2 mod 50 = 0 then checkpoint config p st2 else st2)
           in if enat (currentPage st3) \<ge> maxPages config then Inr (True, st3)
              else (case p_detect p of
                      Inl e \<Rightarrow> Inl (e, st3)
                    | Inr h \<Rightarrow>
                        (let st4 = st3\<lparr>hasNextPage := h\<rparr>
                         in if h then
                              (case p_click p of
                                 Inl e \<Rightarrow> Inl (e, st4)
                               | Inr navigationResult \<Rightarrow>
                                   if \<not> nr_success navigationResult then
                                     (let errorMsg =
                                            js ''Pagination failed on page ''
                                            @ nat_to_string (currentPage st4) @ js '': ''
                                            @ (case nr_error navigationResult of
                                                 None \<Rightarrow> js ''unknown error''
                                               | Some m \<Rightarrow> if m \<noteq> [] then m else js ''unknown error'')
                                      in Inr (False,
                                              st4\<lparr>events := events st4 @ [LogWarn errorMsg],
                                                  errors := errors st4 @ [errorMsg],
                                                  hasNextPage := False\<rparr>))
                                   else Inr (False,
                                             st4\<lparr>hasNextPage := nr_hasNextPage navigationResult,
                                                 currentPage := currentPage st4 + 1\<rparr>))
                            else Inr (False, st4)))))"

text \<open>One iteration: the body and the inner \<open>catch\<close>.\<close>

definition process_page ::
  "(jsstring \<Rightarrow> jsstring) \<Rightarrow> ScraperConfig \<Rightarrow> page_io \<Rightarrow> loop_state \<Rightarrow> bool \<times> loop_state" where
  "process_page normalizeDate config p st =
     (case page_body normalizeDate config p st of
        Inl (pageError, s) \<Rightarrow>
          (False,
           s\<lparr>errors := errors s @
                 [js ''Error processing page '' @ nat_to_string (currentPage s) @ js '': ''
                  @ error_message pageError],
             hasNextPage := False\<rparr>)
      | Inr r \<Rightarrow> r)"

text \<open>
  The \<open>while\<close> loop. The pages are the answers of the site, one entry per iteration; the
  result is \<open>None\<close> when the loop asks for an iteration beyond the given answers.
\<close>

fun scrape_loop ::
  "(jsstring \<Rightarrow> jsstring) \<Rightarrow> ScraperConfig \<Rightarrow> page_io list \<Rightarrow> loop_state \<Rightarrow> loop_state option" where
  "scrape_loop normalizeDate config [] st =
     (if hasNextPage st \<and> enat (currentPage st) \<le> maxPages config then None else Some st)"
| "scrape_loop normalizeDate config (p # ps) st =
     (if hasNextPage st \<and> enat (currentPage st) \<le> maxPages config
      then (case process_page normalizeDate config p st of
              (True, st') \<Rightarrow> Some st'
            | (False, st') \<Rightarrow> scrape_loop normalizeDate config ps st')
      else Some st)"

lemmas scrape_loop_simps = scrape_loop.simps

declare scrape_loop.simps [simp del]

record ScrapingResult =
  totalReviews :: nat
  sr_pagesProcessed :: nat
  outputFile :: jsstring
  sr_errors :: "jsstring list"

text \<open>
  The answers of the collaborators during a run: browser start and page creation, the
  navigation to the target URL, the iterations of the loop, the export after the loop and
  the export in the outer \<open>catch\<close>. The pause for a manual login in headed mode, the
  closing of the browser in \<open>finally\<close> and the time stamps of the result are left out.
\<close>

record scrape_env =
  e_init :: "js_error + unit"
  e_navigate :: "js_error + bool"
  e_pages :: "page_io list"
  e_export :: "js_error + jsstring"
  e_export_partial :: "js_error + jsstring"

definition init_state :: loop_state where
  "init_state =
     \<lparr>allReviews = [], seenReviews = {}, pagesProcessed = 0, currentPage = 1,
      hasNextPage = True, errors = [], events = []\<rparr>"

definition navigation_error :: js_error where
  "navigation_error =
     \<lparr>message = Some (js ''Failed to navigate to target URL''), status = None, response = None\<rparr>"

text \<open>The outer \<open>catch\<close>: what the run returns or throws, and the events of the whole run.\<close>

definition critical ::
  "ScraperConfig \<Rightarrow> scrape_env \<Rightarrow> js_error \<Rightarrow> loop_state
   \<Rightarrow> (js_error + ScrapingResult) \<times> event list" where
  "critical config env error st =
     (if length (allReviews st) > 0 then
        (case e_export_partial env of
           Inr path \<Rightarrow>
             (Inr \<lparr>totalReviews = length (allReviews st), sr_pagesProcessed = pagesProcessed st,
                   outputFile = path, sr_errors = errors st @ [error_message error]\<rparr>,
              events st @ [ExportCall (outputFilename config) (allReviews st)])
         | Inl exportError \<Rightarrow>
             (Inl error, events st @ [ExportCall (outputFilename config) (allReviews st)]))
      else (Inl error, events st))"

definition scrape ::
  "(jsstring \<Rightarrow> jsstring) \<Rightarrow> ScraperConfig \<Rightarrow> scrape_env
   \<Rightarrow> ((js_error + ScrapingResult) \<times> event list) option" where
  "scrape normalizeDate config env =
     (case e_init env of
        Inl e \<Rightarrow> Some (critical config env e init_state)
      | Inr u \<Rightarrow>
          (case e_navigate env of
             Inl e \<Rightarrow> Some (critical config env e init_state)
           | Inr navigationSuccess \<Rightarrow>
               if \<not> navigationSuccess then Some (critical config env navigation_error init_state)
               else
                 (case scrape_loop normalizeDate config (e_pages env) init_state of
                    None \<Rightarrow> None
                  | Some st \<Rightarrow>
                      (let call = ExportCall (outputFilename config) (allReviews st)
                       in case e_export env of
                            Inr path \<Rightarrow>
                              Some (Inr \<lparr>totalReviews = length (allReviews st),
                                         sr_pagesProcessed = pagesProcessed st,
                                         outputFile = path, sr_errors = errors st\<rparr>,
                                    events st @ [call])
                          | Inl e \<Rightarrow>
                              Some (critical config env e (st\<lparr>events := events st @ [call]\<rparr>))))))"

section \<open>Concrete runs of the orchestrator\<close>

text \<open>The configurations, pages and environments used in the examples below.\<close>

definition csv_config :: ScraperConfig where
  "csv_config = \<lparr>outputFilename = js ''reviews.csv'', maxPages = \<infinity>\<rparr>"

definition txt_config :: ScraperConfig where
  "txt_config = \<lparr>outputFilename = js ''reviews.txt'', maxPages = \<infinity>\<rparr>"

definition review_a :: TransformedReview where
  "review_a =
     \<lparr>tr_rating = 5, tr_text = js ''Great|Bob'', tr_date = js ''2024-01-15'',
      tr_reviewerName = js ''Smith'', tr_title = [], tr_verified = False\<rparr>"

definition review_b :: TransformedReview where
  "review_b =
     \<lparr>tr_rating = 1, tr_text = js ''Great'', tr_date = js ''2024-01-15'',
      tr_reviewerName = js ''Bob|Smith'', tr_title = [], tr_verified = False\<rparr>"

definition state_after_49 :: loop_state where
  "state_after_49 = init_state\<lparr>pagesProcessed := 49, currentPage := 50\<rparr>"

definition no_next :: NavigationResult where
  "no_next = \<lparr>nr_success = True, nr_hasNextPage = False, nr_error = None\<rparr>"

definition empty_last_page :: page_io where
  "empty_last_page =
     \<lparr>p_extract = Inr [], p_checkpoint = Inr (js ''/out/reviews.txt''),
      p_detect = Inr False, p_click = Inr no_next\<rparr>"

definition failing_page :: page_io where
  "failing_page =
     \<lparr>p_extract = Inl (plain_error ''No review structure found''),
      p_checkpoint = Inr (js ''/out/reviews.csv''),
      p_detect = Inr False, p_click = Inr no_next\<rparr>"

definition one_review :: ReviewElement where
  "one_review =
     \<lparr>re_rating = js ''Rated 4 out of 5 stars'', re_text = js ''Fast delivery'',
      re_date = js ''2024-01-15'', re_reviewerName = js ''Ann'', re_title = None,
      re_verified = None\<rparr>"

definition one_review_page :: page_io where
  "one_review_page =
     \<lparr>p_extract = Inr [one_review], p_checkpoint = Inr (js ''/out/reviews.csv''),
      p_detect = Inr False, p_click = Inr no_next\<rparr>"

definition env_first_page_fails :: scrape_env where
  "env_first_page_fails =
     \<lparr>e_init = Inr (), e_navigate = Inr True, e_pages = [failing_page],
      e_export = Inr (js ''/out/reviews.csv''), e_export_partial = Inr (js ''/out/reviews.csv'')\<rparr>"

definition env_init_fails :: scrape_env where
  "env_init_fails =
     \<lparr>e_init = Inl (plain_error ''browser launch failed''), e_navigate = Inr True,
      e_pages = [], e_export = Inr (js ''/out/reviews.csv''),
      e_export_partial = Inr (js ''/out/reviews.csv'')\<rparr>"

definition env_export_fails_once :: scrape_env where
  "env_export_fails_once =
     \<lparr>e_init = Inr (), e_navigate = Inr True, e_pages = [one_review_page],
      e_export = Inl (plain_error ''EACCES''), e_export_partial = Inr (js ''/out/reviews.csv'')\<rparr>"

definition env_navigation_fails :: scrape_env where
  "env_navigation_fails =
     \<lparr>e_init = Inr (), e_navigate = Inr False, e_pages = [],
      e_export = Inr (js ''/out/reviews.csv''), e_export_partial = Inr (js ''/out/reviews.csv'')\<rparr>"

definition env_empty_export_fails :: scrape_env where
  "env_empty_export_fails =
     \<lparr>e_init = Inr (), e_navigate = Inr True, e_pages = [empty_last_page],
      e_export = Inl (plain_error ''EACCES''), e_export_partial = Inr (js ''/out/reviews.csv'')\<rparr>"

definition env_both_exports_fail :: scrape_env where
  "env_both_exports_fail =
     \<lparr>e_init = Inr (), e_navigate = Inr True, e_pages = [one_review_page],
      e_export = Inl (plain_error ''EACCES''), e_export_partial = Inl (plain_error ''ENOSPC'')\<rparr>"

definition env_empty_site :: scrape_env where
  "env_empty_site =
     \<lparr>e_init = Inr (), e_navigate = Inr True, e_pages = [empty_last_page],
      e_export = Inr (js ''/out/reviews.csv''), e_export_partial = Inr (js ''/out/reviews.csv'')\<rparr>"

section \<open>Properties of the conversion to doubles\<close>

lemma bit_length_0: "bit_length 0 = 0"
  by (simp add: bit_length_simps)

lemma bit_length_bounds:
  "0 < n \<Longrightarrow> 2 ^ (bit_length n - 1) \<le> n \<and> n < 2 ^ bit_length n"
proof (induction n rule: bit_length.induct)
  case (1 n)
  show ?case
  proof (cases "n div 2 = 0")
    case True
    with 1(2) have "n = 1" by auto
    then show ?thesis by (simp add: bit_length_simps)
  next
    case False
    then have ih: "2 ^ (bit_length (n div 2) - 1) \<le> n div 2" "n div 2 < 2 ^ bit_length (n div 2)"
      using 1 by auto
    have pos: "0 < bit_length (n div 2)"
      using False by (subst bit_length_simps) simp
    have bl: "bit_length n = Suc (bit_length (n div 2))"
      using 1(2) by (subst bit_length_simps) simp
    have "2 ^ (bit_length n - 1) = 2 * 2 ^ (bit_length (n div 2) - 1)"
      using pos bl by (cases "bit_length (n div 2)") simp_all
    also have "\<dots> \<le> 2 * (n div 2)" using ih(1) by simp
    also have "\<dots> \<le> n" by simp
    finally have lo: "2 ^ (bit_length n - 1) \<le> n" .
    have "n < 2 * (n div 2) + 2" by presburger
    also have "\<dots> \<le> 2 * 2 ^ bit_length (n div 2)" using ih(2) by simp
    finally have "n < 2 ^ bit_length n" using bl by simp
    with lo show ?thesis by simp
  qed
qed

lemma pow2_le_rat:
  "0 < b \<Longrightarrow> pow2_le k a b \<longleftrightarrow> (2::rat) powi k \<le> of_nat a / of_nat b"
proof -
  assume b: "0 < b"
  show ?thesis
  proof (cases "0 \<le> k")
    case True
    then have "(2::rat) powi k = 2 ^ nat k" by (simp add: power_int_def)
    moreover have "(2 ^ nat k * b \<le> a) \<longleftrightarrow> ((2::rat) ^ nat k \<le> of_nat a / of_nat b)"
    proof -
      have "(2 ^ nat k * b \<le> a) \<longleftrightarrow> (of_nat (2 ^ nat k * b) \<le> (of_nat a :: rat))"
        by (simp only: of_nat_le_iff)
      also have "\<dots> \<longleftrightarrow> ((2::rat) ^ nat k * of_nat b \<le> of_nat a)" by simp
      also have "\<dots> \<longleftrightarrow> ((2::rat) ^ nat k \<le> of_nat a / of_nat b)"
        using b by (simp add: pos_le_divide_eq)
      finally show ?thesis .
    qed
    ultimately show ?thesis using True by (simp add: pow2_le_def)
  next
    case False
    then have p: "(2::rat) powi k = 1 / 2 ^ nat (- k)" by (simp add: power_int_def field_simps)
    have "(b \<le> a * 2 ^ nat (- k)) \<longleftrightarrow> ((of_nat b :: rat) \<le> of_nat (a * 2 ^ nat (- k)))"
      by (simp only: of_nat_le_iff)
    also have "\<dots> \<longleftrightarrow> ((of_nat b :: rat) \<le> of_nat a * 2 ^ nat (- k))" by simp
    also have "\<dots> \<longleftrightarrow> (1 / 2 ^ nat (- k) \<le> (of_nat a :: rat) / of_nat b)"
      using b by (simp add: field_simps)
    finally show ?thesis using False p by (simp add: pow2_le_def)
  qed
qed

lemma floor_log2_spec:
  assumes a: "0 < a" and b: "0 < b"
  shows "(2::rat) powi (floor_log2 a b) \<le> of_nat a / of_nat b
       \<and> of_nat a / of_nat b < (2::rat) powi (floor_log2 a b + 1)"
proof -
  let ?la = "int (bit_length a)" and ?lb = "int (bit_length b)"
  let ?k = "?la - ?lb"
  let ?q = "(of_nat a :: rat) / of_nat b"
  have bpos: "(0::rat) < of_nat b" using b by simp
  have la: "0 < bit_length a" using a by (subst bit_length_simps) simp
  have lb: "0 < bit_length b" using b by (subst bit_length_simps) simp
  from bit_length_bounds [OF a] have "of_nat (2 ^ (bit_length a - 1)) \<le> (of_nat a :: rat)"
    "(of_nat a :: rat) < of_nat (2 ^ bit_length a)" by (simp_all only: of_nat_le_iff of_nat_less_iff)
  then have a1: "(2::rat) powi (?la - 1) \<le> of_nat a" and a2: "(of_nat a :: rat) < 2 powi ?la"
    using la by (simp_all add: power_int_def nat_diff_distrib')
  from bit_length_bounds [OF b] have "of_nat (2 ^ (bit_length b - 1)) \<le> (of_nat b :: rat)"
    "(of_nat b :: rat) < of_nat (2 ^ bit_length b)" by (simp_all only: of_nat_le_iff of_nat_less_iff)
  then have b1: "(2::rat) powi (?lb - 1) \<le> of_nat b" and b2: "(of_nat b :: rat) < 2 powi ?lb"
    using lb by (simp_all add: power_int_def nat_diff_distrib')
  have lo: "(2::rat) powi (?k - 1) \<le> ?q"
  proof -
    have "(2::rat) powi (?k - 1) * of_nat b \<le> 2 powi (?k - 1) * 2 powi ?lb"
      using b2 by (simp add: mult_left_mono)
    also have "\<dots> = 2 powi (?la - 1)"
      using power_int_add [of "2::rat" "?k - 1" ?lb] by simp
    also have "\<dots> \<le> of_nat a" by (rule a1)
    finally show ?thesis using bpos by (simp add: pos_le_divide_eq)
  qed
  have hi: "?q < (2::rat) powi (?k + 1)"
  proof -
    have "(of_nat a :: rat) < 2 powi ?la" by (rule a2)
    also have "\<dots> = 2 powi (?k + 1) * 2 powi (?lb - 1)"
      using power_int_add [of "2::rat" "?k + 1" "?lb - 1"] by simp
    also have "\<dots> \<le> 2 powi (?k + 1) * of_nat b" using b1 by (simp add: mult_left_mono)
    finally show ?thesis using bpos by (simp add: pos_divide_less_eq)
  qed
  show ?thesis
  proof (cases "pow2_le ?k a b")
    case True
    then have "floor_log2 a b = ?k" by (simp add: floor_log2_def)
    moreover have "(2::rat) powi ?k \<le> ?q" using True pow2_le_rat [OF b] by simp
    ultimately show ?thesis using hi by simp
  next
    case False
    then have "floor_log2 a b = ?k - 1" by (simp add: floor_log2_def)
    moreover have "?q < (2::rat) powi ?k" using False pow2_le_rat [OF b] by simp
    ultimately show ?thesis using lo by simp
  qed
qed

lemma round_half_even_exact:
  "0 < den \<Longrightarrow> den dvd num \<Longrightarrow> round_half_even num den = num div den"
  by (auto simp: round_half_even_def Let_def)

lemma round_half_even_near:
  assumes "0 < den"
  shows "\<bar>(of_nat num :: rat) / of_nat den - of_nat (round_half_even num den)\<bar> \<le> 1 / 2"
proof -
  let ?q = "num div den" and ?r = "num mod den"
  have n: "(of_nat num :: rat) = of_nat ?q * of_nat den + of_nat ?r"
    by (metis div_mult_mod_eq of_nat_add of_nat_mult)
  have d: "(0::rat) < of_nat den" using assms by simp
  have x: "(of_nat num :: rat) / of_nat den = of_nat ?q + of_nat ?r / of_nat den"
    using d by (simp add: n field_simps)
  have r0: "(0::rat) \<le> of_nat ?r / of_nat den" by simp
  consider "2 * ?r < den" | "den < 2 * ?r" | "2 * ?r = den" by linarith
  then show ?thesis
  proof cases
    case 1
    then have "(2::rat) * of_nat ?r < of_nat den" by (metis of_nat_less_iff of_nat_mult of_nat_numeral)
    then have "(of_nat ?r :: rat) / of_nat den < 1 / 2" using d by (simp add: field_simps)
    moreover have "round_half_even num den = ?q" using 1 by (simp add: round_half_even_def Let_def)
    ultimately show ?thesis using r0 by (simp add: x)
  next
    case 2
    then have "(of_nat den :: rat) < 2 * of_nat ?r" by (metis of_nat_less_iff of_nat_mult of_nat_numeral)
    then have "1 / 2 < (of_nat ?r :: rat) / of_nat den" using d by (simp add: field_simps)
    moreover have "(of_nat ?r :: rat) / of_nat den < 1"
      using assms d by (simp add: field_simps)
    moreover have "round_half_even num den = ?q + 1" using 2 by (simp add: round_half_even_def Let_def)
    ultimately show ?thesis by (simp add: x)
  next
    case 3
    then have "(2::rat) * of_nat ?r = of_nat den" by (metis of_nat_mult of_nat_numeral)
    then have h: "(of_nat ?r :: rat) / of_nat den = 1 / 2" using d by (simp add: field_simps)
    have xx: "(of_nat num :: rat) / of_nat den = of_nat ?q + 1 / 2"
      using x h by simp
    have "round_half_even num den = ?q \<or> round_half_even num den = ?q + 1"
      using 3 by (simp add: round_half_even_def Let_def)
    then show ?thesis
    proof
      assume "round_half_even num den = ?q"
      then show ?thesis by (simp add: xx)
    next
      assume "round_half_even num den = ?q + 1"
      then show ?thesis by (simp add: xx)
    qed
  qed
qed

lemma scaled_nonneg:
  "0 < b \<Longrightarrow> 0 \<le> e \<Longrightarrow>
   (of_nat a :: rat) / of_nat (b * 2 ^ nat e) = (of_nat a / of_nat b) / 2 powi e"
  by (simp add: power_int_def)

lemma scaled_neg:
  "0 < b \<Longrightarrow> e < 0 \<Longrightarrow>
   (of_nat (a * 2 ^ nat (- e)) :: rat) / of_nat b = (of_nat a / of_nat b) / 2 powi e"
  by (simp add: power_int_def field_simps)

lemma mantissa_near:
  assumes "0 < b"
  shows "\<bar>(of_nat a / of_nat b) / 2 powi e - (of_nat (mantissa a b e) :: rat)\<bar> \<le> 1 / 2"
proof (cases "0 \<le> e")
  case True
  have "0 < b * 2 ^ nat e" using assms by simp
  from round_half_even_near [OF this, of a] show ?thesis
    using True assms by (simp only: mantissa_def scaled_nonneg if_True)
next
  case False
  then have e: "e < 0" by simp
  from round_half_even_near [OF assms, of "a * 2 ^ nat (- e)"] show ?thesis
    using False assms e by (simp only: mantissa_def scaled_neg if_False)
qed

lemma nearest_double_unfold:
  "0 < a \<Longrightarrow> nearest_double a b =
     (let e = max (floor_log2 a b - 52) (- 1074); m = mantissa a b e
      in if 0 \<le> e \<and> 2 ^ 1024 \<le> m * 2 ^ nat e then None else Some (m, e))"
  by (simp add: nearest_double_def Let_def)

text \<open>
  The conversion meets its specification: the result \<open>m * 2 ^ e\<close> is a double (a significand
  of at most 53 bits, normalised above the subnormal range, an exponent of at least
  \<open>- 1074\<close>, a value below \<open>2 ^ 1024\<close>) and lies within half a unit in the last place of
  \<open>a / b\<close>.
\<close>

lemma nearest_double_half_ulp:
  assumes a: "0 < a" and b: "0 < b" and r: "nearest_double a b = Some (m, e)"
  shows "\<bar>(of_nat a :: rat) / of_nat b - of_nat m * 2 powi e\<bar> \<le> 2 powi e / 2"
    and "- 1074 \<le> e" and "m \<le> 2 ^ 53" and "- 1074 < e \<Longrightarrow> 2 ^ 52 \<le> m"
    and "(of_nat m :: rat) * 2 powi e < 2 ^ 1024"
proof -
  let ?q = "(of_nat a :: rat) / of_nat b"
  let ?fl = "floor_log2 a b"
  have e: "e = max (?fl - 52) (- 1074)" and m: "m = mantissa a b e"
    and nov: "\<not> (0 \<le> e \<and> 2 ^ 1024 \<le> m * 2 ^ nat e)"
    using r a by (auto simp: nearest_double_unfold Let_def split: if_splits)
  show e_lo: "- 1074 \<le> e" using e by simp
  have p: "(0::rat) < 2 powi e" by simp
  have near: "\<bar>?q / 2 powi e - of_nat m\<bar> \<le> 1 / 2" using mantissa_near [OF b] m by simp
  have "\<bar>?q - of_nat m * 2 powi e\<bar> = \<bar>?q / 2 powi e - of_nat m\<bar> * 2 powi e"
  proof -
    have "?q - of_nat m * 2 powi e = (?q / 2 powi e - of_nat m) * 2 powi e"
      using p by (simp add: field_simps)
    then show ?thesis using p by (simp add: abs_mult)
  qed
  also have "\<dots> \<le> (1 / 2) * 2 powi e" using near p by (simp add: mult_right_mono)
  finally show "\<bar>?q - of_nat m * 2 powi e\<bar> \<le> 2 powi e / 2" by simp
  from floor_log2_spec [OF a b] have lo: "(2::rat) powi ?fl \<le> ?q" and hi: "?q < 2 powi (?fl + 1)"
    by simp_all
  have "?q / 2 powi e < 2 powi (?fl + 1) / 2 powi e" using hi p by (rule divide_strict_right_mono)
  also have "\<dots> = 2 powi (?fl + 1 - e)" by (simp add: power_int_diff)
  also have "\<dots> \<le> 2 powi 53" using e by (intro power_int_increasing) auto
  finally have "?q / 2 powi e < 2 powi 53" .
  with near have "(of_nat m :: rat) < 2 powi 53 + 1" by linarith
  then have "(of_nat m :: rat) < of_nat (2 ^ 53 + 1)" by simp
  then have "m < 2 ^ 53 + 1" by (simp only: of_nat_less_iff)
  then show "m \<le> 2 ^ 53" by simp
  show "2 ^ 52 \<le> m" if "- 1074 < e"
  proof -
    from that e have ee: "e = ?fl - 52" by auto
    have "(2::rat) powi 52 = 2 powi (?fl - e)" using ee by simp
    also have "\<dots> = 2 powi ?fl / 2 powi e" by (simp add: power_int_diff)
    also have "\<dots> \<le> ?q / 2 powi e" using lo p by (intro divide_right_mono) simp_all
    finally have "(2::rat) powi 52 \<le> ?q / 2 powi e" .
    with near have "(2::rat) powi 52 - 1 < of_nat m" by linarith
    then have "(of_nat (2 ^ 52 - 1) :: rat) < of_nat m" by simp
    then have "2 ^ 52 - 1 < m" by (simp only: of_nat_less_iff)
    then show ?thesis by simp
  qed
  show "(of_nat m :: rat) * 2 powi e < 2 ^ 1024"
  proof (cases "0 \<le> e")
    case True
    with nov have "m * 2 ^ nat e < 2 ^ 1024" by simp
    then have "(of_nat (m * 2 ^ nat e) :: rat) < of_nat (2 ^ 1024)" by (simp only: of_nat_less_iff)
    then show ?thesis using True by (simp add: power_int_def)
  next
    case False
    then have "(2::rat) powi e \<le> 2 powi 0" by (intro power_int_increasing) auto
    then have "(of_nat m :: rat) * 2 powi e \<le> of_nat m" by (simp add: mult_left_le)
    also have "\<dots> \<le> of_nat (2 ^ 53)" using \<open>m \<le> 2 ^ 53\<close> by (simp only: of_nat_le_iff)
    also have "\<dots> < (2::rat) ^ 1024" by simp
    finally show ?thesis .
  qed
qed

lemma round_half_even_quotient:
  assumes "0 < den" and "(of_nat num :: rat) / of_nat den = of_nat N"
  shows "round_half_even num den = N"
proof -
  have "(of_nat num :: rat) = of_nat N * of_nat den" using assms by (simp add: field_simps)
  then have "(of_nat num :: rat) = of_nat (N * den)" by simp
  then have n: "num = N * den" by (simp only: of_nat_eq_iff)
  then have "den dvd num" by simp
  from round_half_even_exact [OF assms(1) this] show ?thesis using n assms(1) by simp
qed

lemma mantissa_exact:
  assumes "0 < b" and "((of_nat a :: rat) / of_nat b) / 2 powi e = of_nat N"
  shows "mantissa a b e = N"
proof (cases "0 \<le> e")
  case True
  have "0 < b * 2 ^ nat e" using assms(1) by simp
  moreover have "(of_nat a :: rat) / of_nat (b * 2 ^ nat e) = of_nat N"
    using assms True by (simp only: scaled_nonneg)
  ultimately show ?thesis using True by (simp only: mantissa_def if_True round_half_even_quotient)
next
  case False
  then have e: "e < 0" by simp
  have "(of_nat (a * 2 ^ nat (- e)) :: rat) / of_nat b = of_nat N"
    using assms e by (simp only: scaled_neg)
  with assms(1) show ?thesis using False by (simp only: mantissa_def if_False round_half_even_quotient)
qed

text \<open>A rational that is a double is converted to itself.\<close>

lemma nearest_double_exact:
  assumes a: "0 < a" and b: "0 < b"
    and rep: "(of_nat a :: rat) / of_nat b = of_nat M * 2 powi E" "M < 2 ^ 53" "- 1074 \<le> E"
    and fin: "(of_nat a :: rat) / of_nat b < 2 ^ 1024"
  shows "\<exists>m e. nearest_double a b = Some (m, e) \<and> (of_nat m :: rat) * 2 powi e = of_nat a / of_nat b"
proof -
  let ?q = "(of_nat a :: rat) / of_nat b"
  let ?fl = "floor_log2 a b"
  define e where "e = max (?fl - 52) (- 1074)"
  from floor_log2_spec [OF a b] have lo: "(2::rat) powi ?fl \<le> ?q" by simp
  have "(of_nat M :: rat) < of_nat (2 ^ 53)" using rep(2) by (simp only: of_nat_less_iff)
  then have "(of_nat M :: rat) * 2 powi E < 2 ^ 53 * 2 powi E" by (simp add: mult_strict_right_mono)
  also have "\<dots> = 2 powi (53 + E)" using power_int_add [of "2::rat" 53 E] by simp
  finally have "(2::rat) powi ?fl < 2 powi (53 + E)" using lo rep(1) by simp
  then have "?fl < 53 + E"
    by (metis linorder_not_less one_le_numeral power_int_increasing)
  then have eE: "e \<le> E" using rep(3) by (simp add: e_def)
  define N where "N = M * 2 ^ nat (E - e)"
  have "(2::rat) powi E = 2 powi (E - e) * 2 powi e" using power_int_add [of "2::rat" "E - e" e] by simp
  then have "?q = of_nat M * 2 powi (E - e) * 2 powi e" using rep(1) by simp
  then have "?q / 2 powi e = of_nat M * 2 powi (E - e)" by simp
  also have "\<dots> = of_nat N" using eE by (simp add: N_def power_int_def)
  finally have sc: "?q / 2 powi e = of_nat N" .
  then have m: "mantissa a b e = N" using mantissa_exact [OF b] by simp
  have "(0::rat) < 2 powi e" by simp
  then have "?q / 2 powi e * 2 powi e = ?q" by simp
  then have val: "(of_nat N :: rat) * 2 powi e = ?q" by (simp only: sc)
  have "\<not> (0 \<le> e \<and> 2 ^ 1024 \<le> N * 2 ^ nat e)"
  proof
    assume h: "0 \<le> e \<and> 2 ^ 1024 \<le> N * 2 ^ nat e"
    then have "(of_nat (2 ^ 1024) :: rat) \<le> of_nat (N * 2 ^ nat e)" by (simp only: of_nat_le_iff)
    then have "(2::rat) ^ 1024 \<le> of_nat N * 2 powi e" using h by (simp add: power_int_def)
    with val fin show False by simp
  qed
  then have "nearest_double a b = Some (N, e)"
    using a m by (simp add: nearest_double_unfold e_def [symmetric] Let_def)
  with val show ?thesis by blast
qed

lemma double_value_exact:
  assumes "0 < a" "0 < b"
    and "(of_nat a :: rat) / of_nat b = of_nat M * 2 powi E" "M < 2 ^ 53" "- 1074 \<le> E"
    and "(of_nat a :: rat) / of_nat b < 2 ^ 1024"
  shows "double_value a b = Num (of_nat a / of_nat b)"
  using nearest_double_exact [OF assms] by (auto simp: double_value_def)

lemma double_of_int_exact:
  assumes "\<bar>n\<bar> < 2 ^ 53"
  shows "double_of_int n = Num n"
proof (cases "n = 0")
  case True
  then show ?thesis by (simp add: double_of_int_def nearest_double_def)
next
  case False
  let ?a = "nat \<bar>n\<bar>"
  have a: "0 < ?a" using False by simp
  have lt: "?a < 2 ^ 53" using assms by (simp add: nat_less_iff)
  have rep: "(of_nat ?a :: rat) / of_nat 1 = of_nat ?a * 2 powi 0" by simp
  have fin: "(of_nat ?a :: rat) / of_nat 1 < 2 ^ 1024"
  proof -
    have "(of_nat ?a :: rat) < of_nat (2 ^ 53)" using lt by (simp only: of_nat_less_iff)
    also have "\<dots> < (2::rat) ^ 1024" by simp
    finally show ?thesis by simp
  qed
  from nearest_double_exact [OF a _ rep lt _ fin]
  obtain m e where r: "nearest_double ?a 1 = Some (m, e)"
    and v: "(of_nat m :: rat) * 2 powi e = of_nat ?a" by auto
  have val: "(if 0 \<le> e then int m * 2 ^ nat e else int m div 2 ^ nat (- e)) = int ?a"
  proof (cases "0 \<le> e")
    case True
    then have "(of_nat (m * 2 ^ nat e) :: rat) = of_nat ?a" using v by (simp add: power_int_def)
    then have "m * 2 ^ nat e = ?a" by (simp only: of_nat_eq_iff)
    then have "int (m * 2 ^ nat e) = int ?a" by simp
    then show ?thesis using True by simp
  next
    case F: False
    then have "(of_nat m :: rat) = of_nat ?a * 2 ^ nat (- e)"
      using v by (simp add: power_int_def field_simps)
    then have "(of_nat m :: rat) = of_nat (?a * 2 ^ nat (- e))" by simp
    then have "m = ?a * 2 ^ nat (- e)" by (simp only: of_nat_eq_iff)
    then have "int m = int ?a * 2 ^ nat (- e)" by simp
    then show ?thesis using F by simp
  qed
  have sg: "sgn n * int ?a = n" by (simp add: mult_sgn_abs)
  show ?thesis unfolding double_of_int_def r by (simp only: option.case prod.case val sg)
qed


text \<open>
  The conversion of an integer and the conversion of the fraction with
  denominator one give the same double: \<open>double_of_int\<close> only keeps the result
  among the integers, where every double of magnitude \<open>2 ^ 52\<close> or more lies.
\<close>

lemma double_of_int_agrees:
  assumes "0 \<le> n"
  shows "map_jsnumber of_int (double_of_int n) = double_value (nat n) 1"
proof (cases "n = 0")
  case True
  then show ?thesis by (simp add: double_of_int_def double_value_def nearest_double_def)
next
  case False
  then have n: "0 < n" using assms by simp
  then have a: "nat \<bar>n\<bar> = nat n" "sgn n = 1" by simp_all
  show ?thesis
  proof (cases "nearest_double (nat n) 1")
    case None
    then show ?thesis using n by (simp add: double_of_int_def double_value_def a)
  next
    case (Some me)
    obtain m e where me: "me = (m, e)" by (cases me)
    have m: "m = mantissa (nat n) 1 e"
      using Some me n by (auto simp: nearest_double_def Let_def split: if_splits)
    have "(of_int (if 0 \<le> e then int m * 2 ^ nat e else int m div 2 ^ nat (- e)) :: rat)
            = of_nat m * 2 powi e"
    proof (cases "0 \<le> e")
      case True
      then show ?thesis by (simp add: power_int_def)
    next
      case False
      then have "m = nat n * 2 ^ nat (- e)"
        using m by (simp add: mantissa_def round_half_even_exact)
      then have "int m div 2 ^ nat (- e) = int (nat n)"
        "(of_nat m :: rat) = of_nat (nat n) * 2 ^ nat (- e)"
        by simp_all
      then show ?thesis using False by (simp add: power_int_def field_simps)
    qed
    then show ?thesis
      unfolding double_of_int_def double_value_def a Some me by simp
  qed
qed
section \<open>Properties of sanitizeText\<close>

lemma takeWhile_dropWhile_Nil: "takeWhile P (dropWhile P s) = []"
  by (induction s) auto

lemma collapse_Nil: "collapse_newlines [] = []"
  by (simp add: collapse_newlines_simps)

lemma collapse_lead: "lead (collapse_newlines s) = min 2 (lead s)"
proof (induction s rule: collapse_newlines.induct)
  case (1 s)
  show ?case
  proof (cases "3 \<le> length (takeWhile (\<lambda>c. c = LF) s)")
    case True
    let ?r = "dropWhile (\<lambda>c. c = LF) s"
    have "lead ?r = 0"
      unfolding lead_def by (simp add: takeWhile_dropWhile_Nil)
    with 1(1)[OF True] have "lead (collapse_newlines ?r) = 0" by simp
    moreover have "collapse_newlines s = LF # LF # collapse_newlines ?r"
      using True by (subst collapse_newlines_simps) simp
    ultimately show ?thesis using True by (simp add: lead_def)
  next
    case False
    show ?thesis
    proof (cases s)
      case Nil
      then show ?thesis by (simp add: collapse_Nil lead_def)
    next
      case (Cons c r)
      have eq: "collapse_newlines s = c # collapse_newlines r"
        using False Cons by (subst collapse_newlines_simps) simp
      from 1(2)[OF False Cons] have ih: "lead (collapse_newlines r) = min 2 (lead r)" .
      have "lead (c # collapse_newlines r) = min 2 (lead (c # r))"
        using False ih unfolding Cons lead_def by (auto split: if_splits)
      then show ?thesis using eq Cons by simp
    qed
  qed
qed


lemma lead_Cons: "lead (c # r) = (if c = LF then Suc (lead r) else 0)"
  by (simp add: lead_def)

lemma collapse_no_lf3: "\<not> has_lf3 (collapse_newlines s)"
proof (induction s rule: collapse_newlines.induct)
  case (1 s)
  show ?case
  proof (cases "3 \<le> length (takeWhile (\<lambda>c. c = LF) s)")
    case True
    let ?r = "dropWhile (\<lambda>c. c = LF) s"
    have "lead ?r = 0"
      unfolding lead_def by (simp add: takeWhile_dropWhile_Nil)
    then have "lead (collapse_newlines ?r) = 0" by (simp add: collapse_lead)
    moreover have "collapse_newlines s = LF # LF # collapse_newlines ?r"
      using True by (subst collapse_newlines_simps) simp
    ultimately show ?thesis using 1(1)[OF True] by (simp add: lead_Cons)
  next
    case False
    show ?thesis
    proof (cases s)
      case Nil
      then show ?thesis by (simp add: collapse_Nil)
    next
      case (Cons c r)
      have eq: "collapse_newlines s = c # collapse_newlines r"
        using False Cons by (subst collapse_newlines_simps) simp
      from 1(2)[OF False Cons] have ih: "\<not> has_lf3 (collapse_newlines r)" .
      have "c = LF \<Longrightarrow> lead r < 2"
        using False Cons by (simp add: lead_def)
      then show ?thesis using ih unfolding eq by (auto simp: collapse_lead)
    qed
  qed
qed

lemma lf3_run_has_lf3: "x = u @ LF # LF # LF # v \<Longrightarrow> has_lf3 x"
  by (induction u arbitrary: x) (auto simp: lead_Cons)

lemma collapse_hd_last:
  "s \<noteq> [] \<Longrightarrow> collapse_newlines s \<noteq> [] \<and> hd (collapse_newlines s) = hd s \<and> last (collapse_newlines s) = last s"
proof (induction s rule: collapse_newlines.induct)
  case (1 s)
  show ?case
  proof (cases "3 \<le> length (takeWhile (\<lambda>c. c = LF) s)")
    case True
    let ?r = "dropWhile (\<lambda>c. c = LF) s"
    have eq: "collapse_newlines s = LF # LF # collapse_newlines ?r"
      using True by (subst collapse_newlines_simps) simp
    have hd: "hd s = LF" using True by (cases s) (auto split: if_splits)
    show ?thesis
    proof (cases "?r = []")
      case rnil: True
      then have "\<forall>c\<in>set s. c = LF" by simp
      then have "last s = LF" using 1(3) last_in_set by blast
      moreover have "collapse_newlines s = [LF, LF]"
        using eq collapse_Nil by (simp only: rnil)
      ultimately show ?thesis using hd by simp
    next
      case rne: False
      have "last s = last ?r"
        using rne takeWhile_dropWhile_id [of "\<lambda>c. c = LF" s] by (metis last_appendR)
      then show ?thesis using 1(1)[OF True rne] hd eq by simp
    qed
  next
    case False
    then obtain c r where Cons: "s = c # r" using 1(3) by (cases s) auto
    have eq: "collapse_newlines s = c # collapse_newlines r"
      using False Cons by (subst collapse_newlines_simps) simp
    show ?thesis
    proof (cases "r = []")
      case True
      then show ?thesis using eq Cons by (simp add: collapse_Nil)
    next
      case F: False
      then show ?thesis using 1(2)[OF False Cons F] eq Cons by simp
    qed
  qed
qed

lemma replace_crlf_Nil_iff: "replace_crlf s = [] \<longleftrightarrow> s = []"
  by (induction s rule: replace_crlf.induct) auto

lemma replace_crlf_last: "s \<noteq> [] \<Longrightarrow> last (replace_crlf s) = last s"
  by (induction s rule: replace_crlf.induct) (auto simp: replace_crlf_Nil_iff)

lemma replace_crlf_hd: "s \<noteq> [] \<Longrightarrow> hd s \<noteq> CR \<Longrightarrow> hd (replace_crlf s) = hd s"
  by (induction s rule: replace_crlf.induct) auto

lemma is_ws_CR: "is_ws CR" by (simp add: is_ws_def CR_def)
lemma is_ws_LF: "is_ws LF" by (simp add: is_ws_def LF_def)

lemma trim_hd_last: "trim s \<noteq> [] \<Longrightarrow> \<not> is_ws (hd (trim s)) \<and> \<not> is_ws (last (trim s))"
proof -
  assume ne: "trim s \<noteq> []"
  let ?a = "dropWhile is_ws s"
  let ?b = "dropWhile is_ws (rev ?a)"
  have b: "?b \<noteq> []" using ne by (simp add: trim_def)
  then have l: "\<not> is_ws (hd ?b)" using hd_dropWhile by blast
  have "last (trim s) = hd ?b" using b by (simp add: trim_def last_rev)
  moreover have "hd (trim s) = hd ?a"
  proof -
    have a: "?a \<noteq> []"
    proof
      assume "?a = []"
      then have "?b = []" by (simp only: rev.simps dropWhile.simps)
      with b show False ..
    qed
    then have nws: "\<not> is_ws (hd ?a)" using hd_dropWhile by blast
    have "last (rev ?a) = hd ?a" using a by (simp add: last_rev)
    have "rev ?a = takeWhile is_ws (rev ?a) @ ?b" by simp
    then have "?a = rev ?b @ rev (takeWhile is_ws (rev ?a))" by (metis rev_append rev_rev_ident)
    then have "hd ?a = hd (rev ?b)" using b by (metis hd_append2 rev_is_Nil_conv)
    then show ?thesis by (simp add: trim_def)
  qed
  moreover have "\<not> is_ws (hd ?a)"
  proof -
    have "?a \<noteq> []"
    proof
      assume "?a = []"
      then have "?b = []" by (simp only: rev.simps dropWhile.simps)
      with b show False ..
    qed
    then show ?thesis using hd_dropWhile by blast
  qed
  ultimately show ?thesis using l by simp
qed

lemma CR_notin_replace_cr: "CR \<notin> set (replace_cr s)"
  by (auto simp: replace_cr_def CR_def LF_def)

lemma collapse_set: "set (collapse_newlines s) \<subseteq> set s"
proof (induction s rule: collapse_newlines.induct)
  case (1 s)
  show ?case
  proof (cases "3 \<le> length (takeWhile (\<lambda>c. c = LF) s)")
    case True
    have "LF \<in> set s" using True by (cases s) (auto split: if_splits)
    moreover have "set (dropWhile (\<lambda>c. c = LF) s) \<subseteq> set s" by (simp add: set_dropWhileD subsetI)
    ultimately show ?thesis using 1(1)[OF True] True by (subst collapse_newlines_simps) auto
  next
    case False
    then show ?thesis using 1(2)[OF False] by (subst collapse_newlines_simps) (auto split: list.splits)
  qed
qed

text \<open>
  Claim C8. For every input string, the output of text normalization (\<open>sanitizeText\<close>) has
  no leading and no trailing white space, contains no CR, contains no run of three or more
  consecutive LF, and is empty when the input is empty.
\<close>

theorem sanitizeText_normal_form:
  "(sanitizeText s \<noteq> [] \<longrightarrow> \<not> is_ws (hd (sanitizeText s)) \<and> \<not> is_ws (last (sanitizeText s)))
   \<and> CR \<notin> set (sanitizeText s)
   \<and> \<not> (\<exists>u v. sanitizeText s = u @ [LF, LF, LF] @ v)
   \<and> sanitizeText [] = []"
proof -
  let ?t = "trim s"
  let ?m = "replace_cr (replace_crlf ?t)"
  have empty: "sanitizeText [] = []" by (simp add: sanitizeText_def)
  have nocr: "CR \<notin> set (sanitizeText s)"
    using collapse_set [of ?m] CR_notin_replace_cr [of "replace_crlf ?t"]
    by (auto simp: sanitizeText_def)
  have norun: "\<not> (\<exists>u v. sanitizeText s = u @ [LF, LF, LF] @ v)"
  proof
    assume "\<exists>u v. sanitizeText s = u @ [LF, LF, LF] @ v"
    then obtain u v where "sanitizeText s = u @ LF # LF # LF # v" by auto
    then have "has_lf3 (sanitizeText s)" by (rule lf3_run_has_lf3)
    then show False using collapse_no_lf3 by (auto simp: sanitizeText_def split: if_splits)
  qed
  have ends: "\<not> is_ws (hd (sanitizeText s)) \<and> \<not> is_ws (last (sanitizeText s))"
    if ne: "sanitizeText s \<noteq> []"
  proof -
    have eq: "sanitizeText s = collapse_newlines ?m"
      using ne by (auto simp: sanitizeText_def split: if_splits)
    have m: "?m \<noteq> []" using ne eq by (auto simp: collapse_Nil)
    then have t: "?t \<noteq> []" by (auto simp: replace_cr_def)
    have rc: "replace_crlf ?t \<noteq> []" using t by (simp add: replace_crlf_Nil_iff)
    from trim_hd_last [OF t] have h: "\<not> is_ws (hd ?t)" and l: "\<not> is_ws (last ?t)" by simp_all
    have "hd ?t \<noteq> CR" using h is_ws_CR by auto
    then have "hd (replace_crlf ?t) = hd ?t" using t by (simp add: replace_crlf_hd)
    then have hm: "hd ?m = hd ?t" using rc h is_ws_CR by (auto simp: replace_cr_def hd_map)
    have "last (replace_crlf ?t) = last ?t" using t by (simp add: replace_crlf_last)
    then have lm: "last ?m = last ?t" using rc l is_ws_CR by (auto simp: replace_cr_def last_map)
    from collapse_hd_last [OF m] hm lm h l eq show ?thesis by simp
  qed
  from empty nocr norun ends show ?thesis by blast
qed

theorem sanitizeText_normal_form_witness:
  "sanitizeText (js ''  a  '') \<noteq> [] \<and> \<not> is_ws (hd (sanitizeText (js ''  a  '')))
     \<and> \<not> is_ws (last (sanitizeText (js ''  a  '')))"
proof -
  have ne: "sanitizeText (js ''  a  '') \<noteq> []"
    by (simp add: sanitizeText_def js_def trim_def is_ws_def CR_def LF_def replace_cr_def collapse_newlines_simps)
  with sanitizeText_normal_form [of "js ''  a  ''"] show ?thesis by blast
qed

lemma sanitizeText_example:
  "sanitizeText (js ''  a'' @ [CR, LF, LF, CR, LF, LF] @ js ''b  '') = js ''a'' @ [LF, LF] @ js ''b''"
  by (simp add: sanitizeText_def js_def trim_def is_ws_def CR_def LF_def replace_cr_def collapse_newlines_simps)

section \<open>Properties of parseRating\<close>

lemma is_ws_not_digit: "is_ws c \<Longrightarrow> \<not> is_digit c"
  unfolding is_ws_def is_digit_def by (auto simp: word_le_nat_alt)

lemma is_ws_not_DOT: "is_ws c \<Longrightarrow> c \<noteq> DOT"
  unfolding is_ws_def DOT_def by (auto simp: word_le_nat_alt)

lemma DOT_not_digit: "\<not> is_digit DOT"
  by (simp add: is_digit_def DOT_def)

lemma trim_decomp:
  "\<exists>l r. s = l @ trim s @ r \<and> (\<forall>c\<in>set l. is_ws c) \<and> (\<forall>c\<in>set r. is_ws c)"
proof -
  let ?a = "dropWhile is_ws s"
  let ?l = "takeWhile is_ws s"
  let ?r = "rev (takeWhile is_ws (rev ?a))"
  have "rev (takeWhile is_ws (rev ?a) @ dropWhile is_ws (rev ?a)) = ?a"
    by (simp only: takeWhile_dropWhile_id rev_rev_ident)
  then have a: "?a = trim s @ ?r" by (simp only: rev_append trim_def)
  have "s = ?l @ ?a" by simp
  with a have "s = ?l @ trim s @ ?r" by simp
  moreover have "\<forall>c\<in>set ?l. is_ws c" by (auto dest: set_takeWhileD)
  moreover have "\<forall>c\<in>set ?r. is_ws c" by (auto dest: set_takeWhileD)
  ultimately show ?thesis by blast
qed

lemma takeWhile_digit_append:
  "(r = [] \<or> \<not> is_digit (hd r)) \<Longrightarrow> takeWhile is_digit (s @ r) = takeWhile is_digit s"
  by (induction s) (auto, cases r, auto)

lemma dropWhile_digit_append:
  "(r = [] \<or> \<not> is_digit (hd r)) \<Longrightarrow> dropWhile is_digit (s @ r) = dropWhile is_digit s @ r"
  by (induction s) (auto, cases r, auto)

lemma match_number_at_nondigit: "\<not> is_digit c \<Longrightarrow> match_number_at (c # s) = None"
  by (simp add: match_number_at_def)

lemma regex_skip_prefix:
  "\<forall>c\<in>set pre. \<not> is_digit c \<Longrightarrow> regex_number_match (pre @ s) = regex_number_match s"
  by (induction pre) (auto simp: match_number_at_nondigit)

lemma regex_no_digit: "\<forall>c\<in>set s. \<not> is_digit c \<Longrightarrow> regex_number_match s = None"
  using regex_skip_prefix [of s "[]"] by simp

lemma match_ws_suffix:
  assumes "\<forall>c\<in>set r. is_ws c"
  shows "match_number_at (s @ r) = match_number_at s"
proof -
  have r: "r = [] \<or> \<not> is_digit (hd r)" using assms is_ws_not_digit by (cases r) auto
  have tk: "takeWhile is_digit (s @ r) = takeWhile is_digit s" using r by (rule takeWhile_digit_append)
  have dr: "dropWhile is_digit (s @ r) = dropWhile is_digit s @ r" using r by (rule dropWhile_digit_append)
  show ?thesis
  proof (cases "dropWhile is_digit s")
    case Nil
    then have ts: "takeWhile is_digit s = s" by simp
    have "match_number_at (s @ r) = (if s = [] then None else Some s)"
      unfolding match_number_at_def Let_def tk dr Nil ts
      using assms is_ws_not_DOT by (cases r) auto
    moreover have "match_number_at s = (if s = [] then None else Some s)"
      unfolding match_number_at_def Let_def Nil ts by simp
    ultimately show ?thesis by simp
  next
    case (Cons c r')
    have "takeWhile is_digit (r' @ r) = takeWhile is_digit r'" using r by (rule takeWhile_digit_append)
    then show ?thesis using Cons by (simp add: match_number_at_def tk dr Let_def)
  qed
qed

lemma regex_ws_suffix:
  assumes "\<forall>c\<in>set r. is_ws c"
  shows "regex_number_match (s @ r) = regex_number_match s"
proof (induction s)
  case Nil
  have "\<forall>c\<in>set r. \<not> is_digit c" using assms is_ws_not_digit by blast
  then show ?case by (simp add: regex_no_digit)
next
  case (Cons c s)
  have "match_number_at ((c # s) @ r) = match_number_at (c # s)" using assms by (rule match_ws_suffix)
  then show ?case using Cons by (simp split: option.split)
qed

lemma regex_trim: "regex_number_match (trim s) = regex_number_match s"
proof -
  obtain l r where s: "s = l @ trim s @ r" and l: "\<forall>c\<in>set l. is_ws c" and r: "\<forall>c\<in>set r. is_ws c"
    using trim_decomp by blast
  have "\<forall>c\<in>set l. \<not> is_digit c" using l is_ws_not_digit by blast
  then have "regex_number_match (l @ trim s @ r) = regex_number_match (trim s @ r)"
    by (rule regex_skip_prefix)
  also have "\<dots> = regex_number_match (trim s)" using r by (rule regex_ws_suffix)
  finally show ?thesis using s by simp
qed

lemma takeWhile_all_digits:
  "ip \<noteq> [] \<Longrightarrow> \<forall>c\<in>set ip. is_digit c \<Longrightarrow> (post = [] \<or> \<not> is_digit (hd post)) \<Longrightarrow>
   takeWhile is_digit (ip @ post) = ip \<and> dropWhile is_digit (ip @ post) = post"
  by (cases post) (auto simp: takeWhile_append dropWhile_append)

lemma regex_integer_token:
  assumes pre: "\<forall>c\<in>set pre. \<not> is_digit c" and ip: "ip \<noteq> []" "\<forall>c\<in>set ip. is_digit c"
    and post: "post = [] \<or> \<not> is_digit (hd post)" and nofrac: "\<not> (\<exists>d r. post = DOT # d # r \<and> is_digit d)"
  shows "regex_number_match (pre @ ip @ post) = Some ip"
proof -
  have td: "takeWhile is_digit (ip @ post) = ip" "dropWhile is_digit (ip @ post) = post"
    using takeWhile_all_digits [OF ip post] by simp_all
  have "match_number_at (ip @ post) = Some ip"
  proof (cases post)
    case Nil
    have tw: "takeWhile is_digit ip = ip" "dropWhile is_digit ip = []" using ip(2) by simp_all
    show ?thesis using ip(1) unfolding Nil by (simp add: match_number_at_def Let_def tw)
  next
    case (Cons c r')
    have "\<not> (c = DOT \<and> takeWhile is_digit r' \<noteq> [])"
      using nofrac Cons by (cases r') (auto split: if_splits)
    then show ?thesis using td ip Cons by (auto simp: match_number_at_def Let_def)
  qed
  moreover obtain d ip' where "ip = d # ip'" using ip by (cases ip) auto
  ultimately have "regex_number_match (ip @ post) = Some ip" by simp
  then show ?thesis using regex_skip_prefix [OF pre] by simp
qed

lemma regex_decimal_token:
  assumes pre: "\<forall>c\<in>set pre. \<not> is_digit c" and ip: "ip \<noteq> []" "\<forall>c\<in>set ip. is_digit c"
    and fp: "fp \<noteq> []" "\<forall>c\<in>set fp. is_digit c"
    and post: "post = [] \<or> \<not> is_digit (hd post)"
  shows "regex_number_match (pre @ ip @ DOT # fp @ post) = Some (ip @ DOT # fp)"
proof -
  have "DOT # fp @ post = [] \<or> \<not> is_digit (hd (DOT # fp @ post))" by (simp add: DOT_not_digit)
  from takeWhile_all_digits [OF ip this]
  have td: "takeWhile is_digit (ip @ DOT # fp @ post) = ip"
    "dropWhile is_digit (ip @ DOT # fp @ post) = DOT # fp @ post" by simp_all
  have tf: "takeWhile is_digit (fp @ post) = fp" using takeWhile_all_digits [OF fp post] by simp
  have "match_number_at (ip @ DOT # fp @ post) = Some (ip @ DOT # fp)"
    using td tf ip fp by (simp add: match_number_at_def)
  moreover obtain d ip' where "ip = d # ip'" using ip by (cases ip) auto
  ultimately have "regex_number_match (ip @ DOT # fp @ post) = Some (ip @ DOT # fp)" by simp
  then show ?thesis using regex_skip_prefix [OF pre] by simp
qed

lemma digits_value_snoc: "digits_value (ds @ [c]) = 10 * digits_value ds + (unat c - 48)"
  by (simp add: digits_value_def)

lemma digits_value_positional: "digits_value ds = positional_value ds"
proof (induction ds rule: rev_induct)
  case Nil
  then show ?case by (simp add: digits_value_def)
next
  case (snoc c ds)
  have "(\<Sum>i<length ds. (unat ((ds @ [c]) ! i) - 48) * 10 ^ (length (ds @ [c]) - Suc i))
        = (\<Sum>i<length ds. 10 * ((unat (ds ! i) - 48) * 10 ^ (length ds - Suc i)))"
  proof (rule sum.cong)
    fix i assume "i \<in> {..<length ds}"
    then have i: "i < length ds" by simp
    then have "length (ds @ [c]) - Suc i = Suc (length ds - Suc i)" by simp
    then show "(unat ((ds @ [c]) ! i) - 48) * 10 ^ (length (ds @ [c]) - Suc i)
               = 10 * ((unat (ds ! i) - 48) * 10 ^ (length ds - Suc i))"
      using i by (simp add: nth_append)
  qed simp
  also have "\<dots> = 10 * positional_value ds" by (simp only: sum_distrib_left)
  finally have "positional_value (ds @ [c]) = 10 * positional_value ds + (unat c - 48)"
    by simp
  then show ?case using snoc by (simp add: digits_value_snoc)
qed

lemma parseFloat_integer:
  assumes "\<forall>c\<in>set ip. is_digit c"
  shows "parseFloat ip = double_value (positional_value ip) 1"
proof -
  have tw: "takeWhile is_digit ip = ip" "dropWhile is_digit ip = []" using assms by simp_all
  show ?thesis by (simp add: parseFloat_def Let_def tw digits_value_positional)
qed

lemma parseFloat_decimal:
  assumes "\<forall>c\<in>set ip. is_digit c"
  shows "parseFloat (ip @ DOT # fp) =
           double_value (positional_value ip * 10 ^ length fp + positional_value fp) (10 ^ length fp)"
proof -
  have tw: "takeWhile is_digit (ip @ DOT # fp) = ip" "dropWhile is_digit (ip @ DOT # fp) = DOT # fp"
    using assms by (simp_all add: takeWhile_append dropWhile_append DOT_not_digit)
  show ?thesis by (simp add: parseFloat_def Let_def tw digits_value_positional)
qed

text \<open>
  Every string with a digit has a first numeric token of one of the two shapes of the
  theorem below, so the three cases of that theorem cover every input string.
\<close>

lemma first_token_shape:
  assumes "\<exists>c\<in>set s. is_digit c"
  shows "(\<exists>pre ip post. s = pre @ ip @ post
            \<and> (\<forall>c\<in>set pre. \<not> is_digit c) \<and> ip \<noteq> [] \<and> (\<forall>c\<in>set ip. is_digit c)
            \<and> (post = [] \<or> \<not> is_digit (hd post))
            \<and> \<not> (\<exists>d r. post = DOT # d # r \<and> is_digit d))
       \<or> (\<exists>pre ip fp post. s = pre @ ip @ DOT # fp @ post
            \<and> (\<forall>c\<in>set pre. \<not> is_digit c) \<and> ip \<noteq> [] \<and> (\<forall>c\<in>set ip. is_digit c)
            \<and> fp \<noteq> [] \<and> (\<forall>c\<in>set fp. is_digit c)
            \<and> (post = [] \<or> \<not> is_digit (hd post)))"
proof -
  let ?nd = "\<lambda>c. \<not> is_digit c"
  define pre where "pre = takeWhile ?nd s"
  define rest where "rest = dropWhile ?nd s"
  define ip where "ip = takeWhile is_digit rest"
  define post where "post = dropWhile is_digit rest"
  have s: "s = pre @ ip @ post" by (simp add: pre_def rest_def ip_def post_def)
  have pre: "\<forall>c\<in>set pre. \<not> is_digit c" by (auto simp: pre_def dest: set_takeWhileD)
  have "rest \<noteq> []" using assms by (auto simp: rest_def)
  moreover have "is_digit (hd rest)"
    using calculation hd_dropWhile [of ?nd s] by (simp add: rest_def)
  ultimately have ip: "ip \<noteq> []" by (cases rest) (auto simp: ip_def)
  have ipd: "\<forall>c\<in>set ip. is_digit c" by (auto simp: ip_def dest: set_takeWhileD)
  have post: "post = [] \<or> \<not> is_digit (hd post)"
    using hd_dropWhile [of is_digit rest] by (auto simp: post_def)
  show ?thesis
  proof (cases "\<exists>d r. post = DOT # d # r \<and> is_digit d")
    case False
    with s pre ip ipd post show ?thesis by blast
  next
    case True
    then obtain d r where p: "post = DOT # d # r" and d: "is_digit d" by blast
    define fp where "fp = takeWhile is_digit (d # r)"
    define post' where "post' = dropWhile is_digit (d # r)"
    have "d # r = fp @ post'" by (simp add: fp_def post'_def)
    then have s': "s = pre @ ip @ DOT # fp @ post'" using s p by simp
    have fp: "fp \<noteq> []" using d by (simp add: fp_def)
    have fpd: "\<forall>c\<in>set fp. is_digit c" by (auto simp: fp_def dest: set_takeWhileD)
    have post': "post' = [] \<or> \<not> is_digit (hd post')"
      using hd_dropWhile [of is_digit "d # r"] unfolding post'_def by blast
    from s' pre ip ipd fp fpd post' show ?thesis by blast
  qed
qed

text \<open>
  Claim C7, as amended. Rating normalization (\<open>parseRating\<close>) returns 0 on a string without
  a digit. On a string whose first numeric token is the integer \<open>ip\<close> (a maximal run of
  digits, not followed by a dot and a digit) or the decimal \<open>ip.fp\<close> (both runs of digits,
  \<open>fp\<close> maximal), it converts the decimal value of the token to the nearest double and
  returns that double when it lies in [1,5], and 0 otherwise. A token whose value is itself
  a double, \<open>M * 2 ^ E\<close> with a significand below \<open>2 ^ 53\<close> and an exponent from \<open>- 1074\<close>
  to 971, is thus returned exactly when it lies in [1,5]: nothing is rounded beyond the
  conversion to a double.
\<close>

theorem parseRating_nearest_double:
  "((\<forall>c\<in>set s. \<not> is_digit c) \<longrightarrow> parseRating s = 0)
   \<and> ((\<forall>c\<in>set pre. \<not> is_digit c) \<and> ip \<noteq> [] \<and> (\<forall>c\<in>set ip. is_digit c)
        \<and> (post = [] \<or> \<not> is_digit (hd post)) \<and> \<not> (\<exists>d r. post = DOT # d # r \<and> is_digit d)
      \<longrightarrow> parseRating (pre @ ip @ post) = rating_of (double_value (positional_value ip) 1)
          \<and> (positional_value ip < 2 ^ 53 \<longrightarrow>
               parseRating (pre @ ip @ post) =
                 (if 1 \<le> positional_value ip \<and> positional_value ip \<le> 5
                  then of_nat (positional_value ip) else 0)))
   \<and> ((\<forall>c\<in>set pre. \<not> is_digit c) \<and> ip \<noteq> [] \<and> (\<forall>c\<in>set ip. is_digit c)
        \<and> fp \<noteq> [] \<and> (\<forall>c\<in>set fp. is_digit c) \<and> (post = [] \<or> \<not> is_digit (hd post))
      \<longrightarrow> parseRating (pre @ ip @ DOT # fp @ post) =
            rating_of (double_value (positional_value ip * 10 ^ length fp + positional_value fp)
                         (10 ^ length fp))
          \<and> (of_nat (positional_value ip) + of_nat (positional_value fp) / 10 ^ length fp
                 = (of_nat M :: rat) * 2 powi E \<and> M < 2 ^ 53 \<and> - 1074 \<le> E \<and> E \<le> 971 \<longrightarrow>
               parseRating (pre @ ip @ DOT # fp @ post) =
                 (if 1 \<le> (of_nat M :: rat) * 2 powi E \<and> (of_nat M :: rat) * 2 powi E \<le> 5
                  then of_nat M * 2 powi E else 0)))"
proof (intro conjI impI)
  assume "\<forall>c\<in>set s. \<not> is_digit c"
  then show "parseRating s = 0"
    by (simp add: parseRating_def regex_trim regex_no_digit)
next
  assume a: "(\<forall>c\<in>set pre. \<not> is_digit c) \<and> ip \<noteq> [] \<and> (\<forall>c\<in>set ip. is_digit c)
        \<and> (post = [] \<or> \<not> is_digit (hd post)) \<and> \<not> (\<exists>d r. post = DOT # d # r \<and> is_digit d)"
  then have "regex_number_match (pre @ ip @ post) = Some ip"
    using regex_integer_token [of pre ip post] by blast
  moreover have "parseFloat ip = double_value (positional_value ip) 1"
    using a by (simp add: parseFloat_integer)
  ultimately show r: "parseRating (pre @ ip @ post) = rating_of (double_value (positional_value ip) 1)"
    using a by (simp add: parseRating_def regex_trim)
  assume lt: "positional_value ip < 2 ^ 53"
  define n where "n = positional_value ip"
  have dv: "double_value n 1 = Num (of_nat n)"
  proof (cases "n = 0")
    case True
    then show ?thesis by (simp add: double_value_def nearest_double_def)
  next
    case False
    then have pos: "0 < n" by simp
    have lt': "n < 2 ^ 53" using lt by (simp only: n_def)
    have "(of_nat n :: rat) < of_nat (2 ^ 53)" using lt' by (simp only: of_nat_less_iff)
    also have "\<dots> < (2::rat) ^ 1024" by simp
    finally have fin: "(of_nat n :: rat) / of_nat 1 < 2 ^ 1024" by simp
    have rep: "(of_nat n :: rat) / of_nat 1 = of_nat n * 2 powi 0" by simp
    have "double_value n 1 = Num (of_nat n / of_nat 1)"
      by (rule double_value_exact [OF pos _ rep lt' _ fin]) simp_all
    then show ?thesis by simp
  qed
  have "parseRating (pre @ ip @ post) = (if 1 \<le> n \<and> n \<le> 5 then of_nat n else 0)"
    unfolding r n_def [symmetric] dv by simp
  then show "parseRating (pre @ ip @ post) =
          (if 1 \<le> positional_value ip \<and> positional_value ip \<le> 5
           then of_nat (positional_value ip) else 0)"
    by (simp only: n_def)
next
  assume a: "(\<forall>c\<in>set pre. \<not> is_digit c) \<and> ip \<noteq> [] \<and> (\<forall>c\<in>set ip. is_digit c)
        \<and> fp \<noteq> [] \<and> (\<forall>c\<in>set fp. is_digit c) \<and> (post = [] \<or> \<not> is_digit (hd post))"
  let ?N = "positional_value ip * 10 ^ length fp + positional_value fp"
  let ?D = "(10::nat) ^ length fp"
  from a have "regex_number_match (pre @ ip @ DOT # fp @ post) = Some (ip @ DOT # fp)"
    using regex_decimal_token [of pre ip fp post] by blast
  moreover have "parseFloat (ip @ DOT # fp) = double_value ?N ?D"
    using a by (simp add: parseFloat_decimal)
  ultimately show r: "parseRating (pre @ ip @ DOT # fp @ post) = rating_of (double_value ?N ?D)"
    using a by (simp add: parseRating_def regex_trim)
  assume rep: "of_nat (positional_value ip) + of_nat (positional_value fp) / 10 ^ length fp
                 = (of_nat M :: rat) * 2 powi E \<and> M < 2 ^ 53 \<and> - 1074 \<le> E \<and> E \<le> 971"
  define N where "N = positional_value ip * 10 ^ length fp + positional_value fp"
  define v where "v = (of_nat M :: rat) * 2 powi E"
  have r': "parseRating (pre @ ip @ DOT # fp @ post) = rating_of (double_value N ?D)"
    using r by (simp only: N_def)
  have "(of_nat N :: rat) / of_nat ?D
          = of_nat (positional_value ip) + of_nat (positional_value fp) / 10 ^ length fp"
    unfolding N_def by (simp add: field_simps)
  then have q: "(of_nat N :: rat) / of_nat ?D = v" using rep by (simp only: v_def)
  have dv: "double_value N ?D = Num v"
  proof (cases "N = 0")
    case True
    then have "v = 0" using q by simp
    moreover have "double_value N ?D = Num 0"
      using True by (simp add: double_value_def nearest_double_def)
    ultimately show ?thesis by simp
  next
    case False
    then have pos: "0 < N" by simp
    have M: "M < 2 ^ 53" and E: "- 1074 \<le> E" "E \<le> 971" using rep by simp_all
    have "v \<le> of_nat M * 2 powi 971"
      unfolding v_def using E by (intro mult_left_mono power_int_increasing) auto
    also have "\<dots> < 2 ^ 53 * 2 powi 971"
    proof -
      have "(of_nat M :: rat) < of_nat (2 ^ 53)" using M by (simp only: of_nat_less_iff)
      then show ?thesis by (intro mult_strict_right_mono) simp_all
    qed
    also have "\<dots> = (2::rat) ^ 1024" by simp
    finally have fin: "(of_nat N :: rat) / of_nat ?D < 2 ^ 1024" using q by simp
    have q': "(of_nat N :: rat) / of_nat ?D = of_nat M * 2 powi E" using q by (simp only: v_def)
    have "double_value N ?D = Num (of_nat N / of_nat ?D)"
      by (rule double_value_exact [OF pos _ q' M E(1) fin]) simp
    then show ?thesis by (simp only: q)
  qed
  have "parseRating (pre @ ip @ DOT # fp @ post) = (if 1 \<le> v \<and> v \<le> 5 then v else 0)"
    unfolding r' dv by simp
  then show "parseRating (pre @ ip @ DOT # fp @ post) =
                 (if 1 \<le> (of_nat M :: rat) * 2 powi E \<and> (of_nat M :: rat) * 2 powi E \<le> 5
                  then of_nat M * 2 powi E else 0)"
    by (simp only: v_def)
qed

lemmas double_eval =
  double_value_def nearest_double_def mantissa_def floor_log2_def pow2_le_def
  bit_length_simps round_half_even_def Let_def

theorem parseRating_nearest_double_witness:
  "parseRating (js ''invalid'') = 0 \<and> parseRating (js ''Rated 04 of 5'') = 4
   \<and> parseRating (js ''Rated 04.50 of 5'') = 9 / 2
   \<and> parseRating (js ''15'') = 0 \<and> parseRating (js ''15.25'') = 0"
proof -
  note A = parseRating_nearest_double
    [of "js ''invalid''" "js ''Rated ''" "js ''04''" "js '' of 5''" "js ''50''" 9 "- 1",
     unfolded digits_value_positional [symmetric]]
  note B = parseRating_nearest_double
    [of "js ''invalid''" "[]" "js ''15''" "[]" "js ''25''" 61 "- 2",
     unfolded digits_value_positional [symmetric]]
  have d: "digits_value (js ''04'') = 4" "digits_value (js ''50'') = 50"
    "digits_value (js ''15'') = 15" "digits_value (js ''25'') = 25"
    by (simp_all add: js_def digits_value_def)
  have l: "length (js ''50'') = 2" "length (js ''25'') = 2"
    by (simp_all add: js_def)
  have 1: "parseRating (js ''invalid'') = 0"
    using A [THEN conjunct1] by (simp add: js_def is_digit_def)
  have hA: "(\<forall>c\<in>set (js ''Rated ''). \<not> is_digit c) \<and> js ''04'' \<noteq> []
        \<and> (\<forall>c\<in>set (js ''04''). is_digit c)
        \<and> (js '' of 5'' = [] \<or> \<not> is_digit (hd (js '' of 5'')))
        \<and> \<not> (\<exists>d r. js '' of 5'' = DOT # d # r \<and> is_digit d)"
    by (simp add: js_def is_digit_def DOT_def)
  have "parseRating (js ''Rated '' @ js ''04'' @ js '' of 5'') = 4"
    using A [THEN conjunct2, THEN conjunct1, THEN mp, OF hA, THEN conjunct2]
    by (simp add: d)
  then have 2: "parseRating (js ''Rated 04 of 5'') = 4" by (simp add: js_def)
  have hA': "(\<forall>c\<in>set (js ''Rated ''). \<not> is_digit c) \<and> js ''04'' \<noteq> []
        \<and> (\<forall>c\<in>set (js ''04''). is_digit c) \<and> js ''50'' \<noteq> []
        \<and> (\<forall>c\<in>set (js ''50''). is_digit c)
        \<and> (js '' of 5'' = [] \<or> \<not> is_digit (hd (js '' of 5'')))"
    by (simp add: js_def is_digit_def)
  have "parseRating (js ''Rated '' @ js ''04'' @ DOT # js ''50'' @ js '' of 5'') = 9 / 2"
    using A [THEN conjunct2, THEN conjunct2, THEN mp, OF hA', THEN conjunct2]
    by (simp add: d l)
  then have 3: "parseRating (js ''Rated 04.50 of 5'') = 9 / 2" by (simp add: js_def DOT_def)
  have hB: "(\<forall>c\<in>set []. \<not> is_digit c) \<and> js ''15'' \<noteq> []
        \<and> (\<forall>c\<in>set (js ''15''). is_digit c)
        \<and> ([] = [] \<or> \<not> is_digit (hd []))
        \<and> \<not> (\<exists>d r. [] = DOT # d # r \<and> is_digit d)"
    by (simp add: js_def is_digit_def)
  have 4: "parseRating (js ''15'') = 0"
    using B [THEN conjunct2, THEN conjunct1, THEN mp, OF hB, THEN conjunct2]
    by (simp add: d)
  have hB': "(\<forall>c\<in>set []. \<not> is_digit c) \<and> js ''15'' \<noteq> []
        \<and> (\<forall>c\<in>set (js ''15''). is_digit c) \<and> js ''25'' \<noteq> []
        \<and> (\<forall>c\<in>set (js ''25''). is_digit c)
        \<and> ([] = [] \<or> \<not> is_digit (hd []))"
    by (simp add: js_def is_digit_def)
  have "parseRating ([] @ js ''15'' @ DOT # js ''25'' @ []) = 0"
    using B [THEN conjunct2, THEN conjunct2, THEN mp, OF hB', THEN conjunct2]
    by (simp add: d l)
  then have 5: "parseRating (js ''15.25'') = 0" by (simp add: js_def DOT_def)
  from 1 2 3 4 5 show ?thesis by simp
qed

text \<open>
  Claim C7 as stated fails: the token \<open>5.0000000000000000001\<close> lies above 5, and the
  rating returned is 5, not 0. The nearest double is 5.
\<close>

theorem parseRating_rounding_counterexample:
  "parseRating (js ''5.0000000000000000001'') = 5
   \<and> (5::rat) < 50000000000000000001 / 10 ^ 19"
proof -
  have tok: "regex_number_match (trim (js ''5.0000000000000000001''))
               = Some (js ''5.0000000000000000001'')"
    by (simp add: js_def trim_def is_ws_def match_number_at_def is_digit_def DOT_def)
  have pf: "parseFloat (js ''5.0000000000000000001'')
               = double_value 50000000000000000001 10000000000000000000"
    by (simp add: js_def parseFloat_def is_digit_def digits_value_def Let_def)
  have dv: "double_value 50000000000000000001 10000000000000000000 = Num 5"
    by (simp add: double_eval)
  have ne: "js ''5.0000000000000000001'' \<noteq> []" by (simp add: js_def)
  have "parseRating (js ''5.0000000000000000001'') = 5"
    using ne by (simp add: parseRating_def tok pf dv)
  then show ?thesis by simp
qed

lemma parseRating_rounds_up_to_one:
  "parseRating (js ''0.99999999999999999999'') = 1
   \<and> (99999999999999999999::rat) / 10 ^ 20 < 1"
proof -
  have tok: "regex_number_match (trim (js ''0.99999999999999999999''))
               = Some (js ''0.99999999999999999999'')"
    by (simp add: js_def trim_def is_ws_def match_number_at_def is_digit_def DOT_def)
  have pf: "parseFloat (js ''0.99999999999999999999'')
               = double_value 99999999999999999999 100000000000000000000"
    by (simp add: js_def parseFloat_def is_digit_def digits_value_def Let_def)
  have dv: "double_value 99999999999999999999 100000000000000000000 = Num 1"
    by (simp add: double_eval)
  have ne: "js ''0.99999999999999999999'' \<noteq> []" by (simp add: js_def)
  have "parseRating (js ''0.99999999999999999999'') = 1"
    using ne by (simp add: parseRating_def tok pf dv)
  then show ?thesis by simp
qed

lemma parseRating_nearest_double_of_4_1:
  "parseRating (js ''4.1'') = 2308094809027379 / 2 ^ 49"
proof -
  have tok: "regex_number_match (trim (js ''4.1'')) = Some (js ''4.1'')"
    by (simp add: js_def trim_def is_ws_def match_number_at_def is_digit_def DOT_def)
  have pf: "parseFloat (js ''4.1'') = double_value 41 10"
    by (simp add: js_def parseFloat_def is_digit_def digits_value_def Let_def)
  have dv: "double_value 41 10 = Num (2308094809027379 / 2 ^ 49)"
    by (simp add: double_eval)
  have ne: "js ''4.1'' \<noteq> []" by (simp add: js_def)
  show ?thesis using ne by (simp add: parseRating_def tok pf dv)
qed

section \<open>Properties of retryWithBackoff\<close>

lemma times_1000_exact: "\<bar>n\<bar> * 1000 < 2 ^ 53 \<Longrightarrow> times_1000 (Num n) = Num (n * 1000)"
  by (simp add: times_1000_def double_of_int_exact abs_mult)

lemma retry_loop_success:
  "int a \<le> maxRetries config \<Longrightarrow> operation a = Inr v \<Longrightarrow>
   retry_loop config operation a le = (Inr v, [])"
  by (subst retry_loop_simps) simp

lemma retry_loop_last_failure:
  "int a = maxRetries config \<Longrightarrow> operation a = Inl e \<Longrightarrow>
   retry_loop config operation a le = (Inl e, [])"
  by (subst retry_loop_simps) simp

lemma retry_loop_failure:
  "int a < maxRetries config \<Longrightarrow> operation a = Inl e \<Longrightarrow>
   retry_loop config operation a le =
     (fst (retry_loop config operation (a + 1) (Some e)),
      backoff_delay config a e # snd (retry_loop config operation (a + 1) (Some e)))"
  by (subst retry_loop_simps) (simp add: backoff_delay_def split: prod.splits)

text \<open>Within the retry budget the loop does not read \<open>lastError\<close>.\<close>

lemma retry_loop_lastError:
  "int a \<le> maxRetries config \<Longrightarrow>
   retry_loop config operation a le = retry_loop config operation a le'"
  by (subst retry_loop_simps, subst (2) retry_loop_simps) simp

lemma retry_loop_prefix:
  assumes "\<forall>k<n. operation k = Inl (errs k)" "int n \<le> maxRetries config"
  shows "a \<le> n \<Longrightarrow> retry_loop config operation a le =
           (fst (retry_loop config operation n None),
            map (\<lambda>k. backoff_delay config k (errs k)) [a..<n]
            @ snd (retry_loop config operation n None))"
proof (induction "n - a" arbitrary: a le)
  case 0
  then have "a = n" by simp
  then show ?case using assms(2) retry_loop_lastError [of n config operation le None] by simp
next
  case (Suc d)
  then have lt: "a < n" by simp
  then have f: "operation a = Inl (errs a)" using assms(1) by simp
  have "int a < maxRetries config" using lt assms(2) by simp
  with retry_loop_failure [of a config operation "errs a" le] f
  have "retry_loop config operation a le =
     (fst (retry_loop config operation (Suc a) (Some (errs a))),
      backoff_delay config a (errs a) # snd (retry_loop config operation (Suc a) (Some (errs a))))"
    by simp
  moreover have "retry_loop config operation (Suc a) (Some (errs a)) =
           (fst (retry_loop config operation n None),
            map (\<lambda>k. backoff_delay config k (errs k)) [Suc a..<n]
            @ snd (retry_loop config operation n None))"
    using Suc(1) [of "Suc a"] Suc(2) lt by simp
  ultimately show ?case using lt by (simp add: upt_conv_Cons)
qed

text \<open>
  Claim C5, as amended. When the first \<open>n\<close> invocations fail and all of them are followed by
  a retry (\<open>n\<close> is at most \<open>maxRetries\<close>), the sleep after failure \<open>k\<close> is exactly the hinted
  duration, the product of the hinted seconds and 1000, when the failure carries a wait
  hint, and \<open>min (baseDelay * 2 ^ k) maxDelay\<close> otherwise, where \<open>k\<close> counts every earlier
  failure, hinted or not: a hinted failure consumes one step of the exponential growth.
  These are all the sleeps of the call when invocation \<open>n\<close> succeeds, and when it is the
  last failure of a call that exhausts its retries.
\<close>

theorem retry_sleep_schedule:
  assumes "\<forall>k<n. operation k = Inl (errs k)" and "int n \<le> maxRetries config"
  shows "take n (snd (retryWithBackoff operation config)) =
           map (\<lambda>k. case extractRetryAfter (errs k) of
                       Some retryAfter \<Rightarrow> times_1000 retryAfter
                     | None \<Rightarrow> Num (min (baseDelay config * 2 ^ k) (maxDelay config))) [0..<n]
       \<and> (operation n = Inr v \<longrightarrow>
            retryWithBackoff operation config =
              (Inr v,
               map (\<lambda>k. case extractRetryAfter (errs k) of
                           Some retryAfter \<Rightarrow> times_1000 retryAfter
                         | None \<Rightarrow> Num (min (baseDelay config * 2 ^ k) (maxDelay config))) [0..<n]))
       \<and> (int n = maxRetries config \<and> operation n = Inl e \<longrightarrow>
            retryWithBackoff operation config =
              (Inl e,
               map (\<lambda>k. case extractRetryAfter (errs k) of
                           Some retryAfter \<Rightarrow> times_1000 retryAfter
                         | None \<Rightarrow> Num (min (baseDelay config * 2 ^ k) (maxDelay config))) [0..<n]))"
proof -
  let ?f = "\<lambda>k. backoff_delay config k (errs k)"
  have f: "?f = (\<lambda>k. case extractRetryAfter (errs k) of
                       Some retryAfter \<Rightarrow> times_1000 retryAfter
                     | None \<Rightarrow> Num (min (baseDelay config * 2 ^ k) (maxDelay config)))"
    by (simp add: backoff_delay_def)
  have p: "retryWithBackoff operation config =
             (fst (retry_loop config operation n None),
              map ?f [0..<n] @ snd (retry_loop config operation n None))"
    using retry_loop_prefix [OF assms, of 0 None] by (simp add: retryWithBackoff_def)
  have 1: "take n (snd (retryWithBackoff operation config)) = map ?f [0..<n]"
    by (simp add: p)
  have 2: "retryWithBackoff operation config = (Inr v, map ?f [0..<n])" if "operation n = Inr v"
    using retry_loop_success [of n config operation v None] assms(2) that by (simp add: p)
  have 3: "retryWithBackoff operation config = (Inl e, map ?f [0..<n])"
    if "int n = maxRetries config \<and> operation n = Inl e"
    using retry_loop_last_failure [of n config operation e None] that by (simp add: p)
  from 1 2 3 show ?thesis unfolding f by blast
qed

lemma extract_plain: "extractRetryAfter (plain_error ''timeout'') = None"
  by (simp add: plain_error_def extractRetryAfter_def js_def)

lemma parseInt_5: "parseInt (js ''5'') = Some (Num 5)"
  by (simp add: parseInt_def js_def is_ws_def is_digit_def digits_value_def double_of_int_exact)

lemma extract_hinted: "extractRetryAfter (rate_limited_error ''5'') = Some (Num 5)"
proof -
  have "js ''5'' \<noteq> []" by (simp add: js_def)
  then show ?thesis by (simp add: rate_limited_error_def extractRetryAfter_def parseInt_5)
qed

lemma times_1000_5: "times_1000 (Num 5) = Num 5000"
  using times_1000_exact [of 5] by simp

theorem retry_sleep_schedule_witness:
  "retryWithBackoff
     (scripted [Inl (rate_limited_error ''5''), Inl (plain_error ''timeout'')] (Inr True))
     default_retry_config
   = (Inr True, [Num 5000, Num 2000])
   \<and> retryWithBackoff
     (scripted [] (Inl (rate_limited_error ''5'') :: js_error + bool)) default_retry_config
   = (Inl (rate_limited_error ''5''), [Num 5000, Num 5000, Num 5000])"
proof -
  let ?op = "scripted [Inl (rate_limited_error ''5''), Inl (plain_error ''timeout'')] (Inr True)"
  let ?errs = "\<lambda>k::nat. if k = 0 then rate_limited_error ''5'' else plain_error ''timeout''"
  have a1: "\<forall>k<2. ?op k = Inl (?errs k)" by (auto simp: scripted_def less_Suc_eq numeral_2_eq_2)
  have a2: "int 2 \<le> maxRetries default_retry_config" by (simp add: default_retry_config_def)
  have a3: "?op 2 = Inr True" by (simp add: scripted_def)
  have u2: "[0..<2] = [0, Suc 0]" by (simp add: numeral_2_eq_2)
  from retry_sleep_schedule [of 2 ?op ?errs default_retry_config True, OF a1 a2] a3
  have r1: "retryWithBackoff ?op default_retry_config = (Inr True, [Num 5000, Num 2000])"
    by (simp add: u2 extract_plain extract_hinted times_1000_5 default_retry_config_def)
  let ?op' = "scripted [] (Inl (rate_limited_error ''5'') :: js_error + bool)"
  let ?errs' = "\<lambda>k::nat. rate_limited_error ''5''"
  have b1: "\<forall>k<3. ?op' k = Inl (?errs' k)" by (simp add: scripted_def)
  have b2: "int 3 \<le> maxRetries default_retry_config" by (simp add: default_retry_config_def)
  have b3: "int 3 = maxRetries default_retry_config \<and> ?op' 3 = Inl (rate_limited_error ''5'')"
    by (simp add: default_retry_config_def scripted_def)
  have u3: "[0..<3] = [0, Suc 0, Suc (Suc 0)]" by (simp add: numeral_3_eq_3)
  from retry_sleep_schedule
    [of 3 ?op' ?errs' default_retry_config _ "rate_limited_error ''5''", OF b1 b2] b3
  have r2: "retryWithBackoff ?op' default_retry_config
              = (Inl (rate_limited_error ''5''), [Num 5000, Num 5000, Num 5000])"
    by (simp add: u3 extract_hinted times_1000_5)
  from r1 r2 show ?thesis by simp
qed

text \<open>
  Claim C5 as stated fails: after a hinted failure, a hint-less failure sleeps 2000 ms,
  while without the hinted failure it sleeps 1000 ms.
\<close>

theorem retry_hint_consumes_attempt_counterexample:
  "snd (retryWithBackoff
          (scripted [Inl (rate_limited_error ''5''), Inl (plain_error ''timeout'')] (Inr True))
          default_retry_config) = [Num 5000, Num 2000]
   \<and> snd (retryWithBackoff (scripted [Inl (plain_error ''timeout'')] (Inr True))
          default_retry_config) = [Num 1000]"
  by (simp add: retryWithBackoff_def retry_loop_simps scripted_def default_retry_config_def
      extract_plain extract_hinted times_1000_5)

text \<open>
  Claim C4, as amended. Under \<open>{maxRetries: 3, baseDelay: 1000, maxDelay: 8000}\<close>, three
  consecutive failures in which the scheduler finds no wait hint (no parseable retry-after
  header of a 429 response, and no 429 in the message or the status) followed by a success
  return that success on the third retry after sleeps of 1000, 2000 and 4000 ms; a fourth
  consecutive failure is re-raised unmodified after the same sleeps.
\<close>

theorem retry_default_three_failures:
  assumes "extractRetryAfter e0 = None" "extractRetryAfter e1 = None" "extractRetryAfter e2 = None"
    and "operation 0 = Inl e0" "operation 1 = Inl e1" "operation 2 = Inl e2"
  shows "(operation 3 = Inr v \<longrightarrow>
            retryWithBackoff operation default_retry_config
              = (Inr v, [Num 1000, Num 2000, Num 4000]))
       \<and> (operation 3 = Inl e3 \<longrightarrow>
            retryWithBackoff operation default_retry_config
              = (Inl e3, [Num 1000, Num 2000, Num 4000]))"
proof -
  have c: "maxRetries default_retry_config = 3" "baseDelay default_retry_config = 1000"
    "maxDelay default_retry_config = 8000" by (simp_all add: default_retry_config_def)
  have l0: "retry_loop default_retry_config operation 0 None =
     (fst (retry_loop default_retry_config operation 1 (Some e0)),
      Num 1000 # snd (retry_loop default_retry_config operation 1 (Some e0)))"
    using retry_loop_failure [of 0 default_retry_config operation e0 None] assms
    by (simp add: c backoff_delay_def numeral_2_eq_2 numeral_3_eq_3)
  have l1: "retry_loop default_retry_config operation 1 (Some e0) =
     (fst (retry_loop default_retry_config operation 2 (Some e1)),
      Num 2000 # snd (retry_loop default_retry_config operation 2 (Some e1)))"
    using retry_loop_failure [of 1 default_retry_config operation e1 "Some e0"] assms
    by (simp add: c backoff_delay_def numeral_2_eq_2 numeral_3_eq_3)
  have l2: "retry_loop default_retry_config operation 2 (Some e1) =
     (fst (retry_loop default_retry_config operation 3 (Some e2)),
      Num 4000 # snd (retry_loop default_retry_config operation 3 (Some e2)))"
    using retry_loop_failure [of 2 default_retry_config operation e2 "Some e1"] assms
    by (simp add: c backoff_delay_def numeral_2_eq_2 numeral_3_eq_3)
  have ok: "operation 3 = Inr v \<Longrightarrow> retry_loop default_retry_config operation 3 (Some e2) = (Inr v, [])"
    using retry_loop_success [of 3 default_retry_config operation v "Some e2"] by (simp add: c)
  have ko: "operation 3 = Inl e3 \<Longrightarrow> retry_loop default_retry_config operation 3 (Some e2) = (Inl e3, [])"
    using retry_loop_last_failure [of 3 default_retry_config operation e3 "Some e2"] by (simp add: c)
  show ?thesis
  proof (intro conjI impI)
    assume a: "operation 3 = Inr v"
    show "retryWithBackoff operation default_retry_config = (Inr v, [Num 1000, Num 2000, Num 4000])"
      unfolding retryWithBackoff_def l0 l1 l2 ok [OF a] by simp
  next
    assume a: "operation 3 = Inl e3"
    show "retryWithBackoff operation default_retry_config = (Inl e3, [Num 1000, Num 2000, Num 4000])"
      unfolding retryWithBackoff_def l0 l1 l2 ko [OF a] by simp
  qed
qed

theorem retry_default_three_failures_witness:
  "retryWithBackoff
     (scripted [Inl (plain_error ''timeout''), Inl (plain_error ''timeout''),
                Inl (plain_error ''timeout'')] (Inr True))
     default_retry_config = (Inr True, [Num 1000, Num 2000, Num 4000])
   \<and> retryWithBackoff
     (scripted [Inl (plain_error ''timeout''), Inl (plain_error ''timeout''),
                Inl (plain_error ''timeout'')] (Inl (plain_error ''timeout'') :: js_error + bool))
     default_retry_config = (Inl (plain_error ''timeout''), [Num 1000, Num 2000, Num 4000])"
  using retry_default_three_failures
    [of "plain_error ''timeout''" "plain_error ''timeout''" "plain_error ''timeout''"
        "scripted [Inl (plain_error ''timeout''), Inl (plain_error ''timeout''),
                Inl (plain_error ''timeout'')] (Inr True)" True "plain_error ''timeout''"]
   retry_default_three_failures
    [of "plain_error ''timeout''" "plain_error ''timeout''" "plain_error ''timeout''"
        "scripted [Inl (plain_error ''timeout''), Inl (plain_error ''timeout''),
                Inl (plain_error ''timeout'')] (Inl (plain_error ''timeout'') :: js_error + bool)"
        True "plain_error ''timeout''"]
  by (simp add: extract_plain scripted_def)

text \<open>
  Claim C4 as stated fails: the total backoff before the successful third retry is
  1000 + 2000 + 4000 ms, not 1000 + 2000 ms.
\<close>

theorem retry_three_failures_total_sleep_counterexample:
  "retryWithBackoff
     (scripted [Inl (plain_error ''timeout''), Inl (plain_error ''timeout''),
                Inl (plain_error ''timeout'')] (Inr True))
     default_retry_config = (Inr True, [Num 1000, Num 2000, Num 4000])
   \<and> sum_list [1000, 2000, 4000 :: int] \<noteq> 1000 + 2000"
  by (simp add: retryWithBackoff_def retry_loop_simps scripted_def default_retry_config_def
      extract_plain)

text \<open>
  Claim C10. A failure whose message contains \<open>429\<close> (or whose \<open>status\<close> is 429) and that
  has no parseable retry-after header yields the default hint of 60 seconds, and the retry
  loop sleeps 60000 ms before the next attempt, whatever \<open>maxDelay\<close> is.
\<close>

theorem rate_limit_default_sleep:
  assumes "(\<exists>m. message e = Some m \<and> str_includes m (js ''429'')) \<or> status e = Some 429"
    and "\<forall>resp h. response e = Some resp \<longrightarrow> r_retry_after resp = Some h \<longrightarrow> parseInt h = None"
    and "int attempt < maxRetries config" and "operation attempt = Inl e"
  shows "extractRetryAfter e = Some (Num 60)
       \<and> retry_loop config operation attempt lastError =
           (fst (retry_loop config operation (attempt + 1) (Some e)),
            Num 60000 # snd (retry_loop config operation (attempt + 1) (Some e)))"
proof -
  have x: "extractRetryAfter e = Some (Num 60)"
    using assms(1,2) by (auto simp: extractRetryAfter_def split: option.splits)
  have "times_1000 (Num 60) = Num 60000" using times_1000_exact [of 60] by simp
  with x show ?thesis
    using retry_loop_failure [of attempt config operation e lastError] assms(3,4)
    by (simp add: backoff_delay_def)
qed

theorem rate_limit_default_sleep_witness:
  "extractRetryAfter (plain_error ''HTTP 429'') = Some (Num 60)
   \<and> maxDelay default_retry_config < 60000
   \<and> retryWithBackoff (scripted [Inl (plain_error ''HTTP 429'')] (Inr True)) default_retry_config
       = (Inr True, [Num 60000])"
proof -
  let ?op = "scripted [Inl (plain_error ''HTTP 429'')] (Inr True)"
  have 1: "(\<exists>m. message (plain_error ''HTTP 429'') = Some m \<and> str_includes m (js ''429''))
            \<or> status (plain_error ''HTTP 429'') = Some 429"
    by (simp add: plain_error_def js_def)
  have 2: "\<forall>resp h. response (plain_error ''HTTP 429'') = Some resp \<longrightarrow>
             r_retry_after resp = Some h \<longrightarrow> parseInt h = None"
    by (simp add: plain_error_def)
  have 3: "int 0 < maxRetries default_retry_config" by (simp add: default_retry_config_def)
  have 4: "?op 0 = Inl (plain_error ''HTTP 429'')" by (simp add: scripted_def)
  have 5: "retry_loop default_retry_config ?op (Suc 0) (Some (plain_error ''HTTP 429'')) = (Inr True, [])"
    by (subst retry_loop_simps) (simp add: scripted_def default_retry_config_def)
  from rate_limit_default_sleep [of "plain_error ''HTTP 429''" 0 default_retry_config ?op None]
    1 2 3 4 5 show ?thesis
    by (simp add: retryWithBackoff_def default_retry_config_def)
qed

text \<open>
  The hint read from a header is the double nearest to the integer written there, and
  the sleep is the double product with 1000.
\<close>

lemma parseInt_rounds:
  "parseInt (js ''9007199254740993'') = Some (Num 9007199254740992)
   \<and> times_1000 (Num 9007199254740992) = Num 9007199254740992000"
proof -
  have n: "nearest_double 9007199254740993 (Suc 0) = Some (4503599627370496, 1)"
    by (simp add: nearest_double_def mantissa_def floor_log2_def pow2_le_def bit_length_simps
        round_half_even_def Let_def)
  have p: "parseInt (js ''9007199254740993'') = Some (Num 9007199254740992)"
    by (simp add: parseInt_def js_def is_ws_def is_digit_def digits_value_def
        double_of_int_def n)
  have m: "nearest_double 9007199254740992000 (Suc 0) = Some (8796093022208000, 10)"
    by (simp add: nearest_double_def mantissa_def floor_log2_def pow2_le_def bit_length_simps
        round_half_even_def Let_def)
  have "times_1000 (Num 9007199254740992) = Num 9007199254740992000"
    by (simp add: times_1000_def double_of_int_def m)
  with p show ?thesis by simp
qed

section \<open>Properties of extractField\<close>

lemma first_substantial_found:
  "\<forall>q\<in>set pre. short_paragraph q \<Longrightarrow> 20 < length (trim (or_empty t)) \<Longrightarrow>
   first_substantial (pre @ Returns t # post) = Returns (Some (trim (or_empty t)))"
  by (induction pre) (auto simp: short_paragraph_def split: dom.splits)

lemma first_substantial_none:
  "\<forall>q\<in>set ps. short_paragraph q \<Longrightarrow> first_substantial ps = Returns None"
  by (induction ps) (auto simp: short_paragraph_def split: dom.splits)

lemma foldl_longest:
  "foldl (\<lambda>a b. if length a > length b then a else b) l ls \<in> set (l # ls)
   \<and> (\<forall>l'\<in>set (l # ls).
         length l' \<le> length (foldl (\<lambda>a b. if length a > length b then a else (b::jsstring)) l ls))"
proof (induction ls arbitrary: l)
  case Nil
  then show ?case by simp
next
  case (Cons b ls)
  let ?f = "\<lambda>a b. if length a > length b then a else (b::jsstring)"
  from Cons [of "?f l b"] show ?case by (auto split: if_splits)
qed

lemma longest_line_Some:
  "ls \<noteq> [] \<Longrightarrow> \<exists>l\<in>set ls. longest_line ls = Some l \<and> (\<forall>l'\<in>set ls. length l' \<le> length l)"
  using foldl_longest by (cases ls) (auto simp: longest_line_def)

text \<open>
  Claim C6, as amended. When no field-specific text locator yields text and no DOM call of
  the fallback throws, extraction of the required text field returns the first paragraph,
  in document order, whose trimmed text is longer than 20 code units. When no paragraph is
  that long, it returns a longest trimmed line (longer than 20 code units) of the
  container's whole text content, and it fails only when there is no such line either.
\<close>

theorem text_fallback_first_paragraph:
  assumes "try_selectors element selectors (js ''text'') = None"
  shows "(c_paragraphs element = Returns (pre @ Returns t # post)
            \<and> (\<forall>q\<in>set pre. short_paragraph q) \<and> 20 < length (trim (or_empty t))
          \<longrightarrow> extractField element selectors (js ''text'') True = Inr (trim (or_empty t)))
       \<and> (c_paragraphs element = Returns ps \<and> (\<forall>q\<in>set ps. short_paragraph q)
            \<and> c_textContent element = Returns tc
          \<longrightarrow> (if substantial_lines (trim (or_empty tc)) = []
               then extractField element selectors (js ''text'') True
                      = Inl (required_field_error (js ''text''))
               else \<exists>l\<in>set (substantial_lines (trim (or_empty tc))).
                      extractField element selectors (js ''text'') True = Inr l
                      \<and> (\<forall>l'\<in>set (substantial_lines (trim (or_empty tc))).
                            length l' \<le> length l)))"
proof (intro conjI impI)
  assume a: "c_paragraphs element = Returns (pre @ Returns t # post)
            \<and> (\<forall>q\<in>set pre. short_paragraph q) \<and> 20 < length (trim (or_empty t))"
  then have "first_substantial (pre @ Returns t # post) = Returns (Some (trim (or_empty t)))"
    by (simp add: first_substantial_found)
  then have "text_fallback element = Some (trim (or_empty t))"
    using a by (simp add: text_fallback_def)
  then show "extractField element selectors (js ''text'') True = Inr (trim (or_empty t))"
    using assms by (simp add: extractField_def)
next
  let ?ls = "substantial_lines (trim (or_empty tc))"
  assume a: "c_paragraphs element = Returns ps \<and> (\<forall>q\<in>set ps. short_paragraph q)
            \<and> c_textContent element = Returns tc"
  then have "first_substantial ps = Returns None" by (simp add: first_substantial_none)
  then have fb: "text_fallback element = longest_line ?ls"
    using a by (simp add: text_fallback_def)
  show "if ?ls = []
        then extractField element selectors (js ''text'') True = Inl (required_field_error (js ''text''))
        else \<exists>l\<in>set ?ls. extractField element selectors (js ''text'') True = Inr l
               \<and> (\<forall>l'\<in>set ?ls. length l' \<le> length l)"
  proof (cases "?ls = []")
    case True
    then show ?thesis using assms fb by (simp add: extractField_def longest_line_def)
  next
    case False
    from longest_line_Some [OF False] obtain l where
      l: "l \<in> set ?ls" "longest_line ?ls = Some l" "\<forall>l'\<in>set ?ls. length l' \<le> length l" by blast
    have "extractField element selectors (js ''text'') True = Inr l"
      using assms fb l(2) by (simp add: extractField_def)
    then show ?thesis using False l by auto
  qed
qed

lemma try_selectors_no_match:
  "\<forall>sel\<in>set selectors. c_query element sel = Returns None \<Longrightarrow>
   try_selectors element selectors fieldName = None"
  by (induction selectors) auto

lemma two_line_lines:
  "substantial_lines (trim (or_empty (Some
        (js ''Great!'' @ [LF] @ js ''  Verified purchase in March  '' @ [LF]
         @ js ''Would recommend this shop to anyone'' @ [LF] @ js ''5 stars''))))
   = [js ''Verified purchase in March'', js ''Would recommend this shop to anyone'']"
  by (simp add: substantial_lines_def split_lf_def or_empty_def js_def trim_def is_ws_def LF_def)

theorem text_fallback_first_paragraph_witness:
  "extractField two_paragraph_container REVIEW_SELECTORS_text (js ''text'') True
     = Inr (js ''Arrived on time, works.'')
   \<and> extractField two_line_container REVIEW_SELECTORS_text (js ''text'') True
     = Inr (js ''Would recommend this shop to anyone'')"
proof -
  let ?p1 = "Some (js ''Arrived on time, works.'')"
  let ?p2 = "Returns (Some (js ''The product arrived on time and works exactly as described.''))"
  let ?tc = "Some (js ''Great!'' @ [LF] @ js ''  Verified purchase in March  '' @ [LF]
         @ js ''Would recommend this shop to anyone'' @ [LF] @ js ''5 stars'')"
  have s1: "try_selectors two_paragraph_container REVIEW_SELECTORS_text (js ''text'') = None"
    by (rule try_selectors_no_match) (simp add: two_paragraph_container_def)
  have t1: "trim (or_empty ?p1) = js ''Arrived on time, works.''"
    by (simp add: or_empty_def js_def trim_def is_ws_def)
  have h1: "c_paragraphs two_paragraph_container = Returns ([] @ Returns ?p1 # [?p2])
            \<and> (\<forall>q\<in>set []. short_paragraph q) \<and> 20 < length (trim (or_empty ?p1))"
    unfolding t1 by (simp add: two_paragraph_container_def js_def)
  have s2: "try_selectors two_line_container REVIEW_SELECTORS_text (js ''text'') = None"
    by (rule try_selectors_no_match) (simp add: two_line_container_def)
  have h2: "c_paragraphs two_line_container = Returns [Returns (Some (js ''Great!'')), Returns None]
            \<and> (\<forall>q\<in>set [Returns (Some (js ''Great!'')), Returns None]. short_paragraph q)
            \<and> c_textContent two_line_container = Returns ?tc"
    by (simp add: two_line_container_def short_paragraph_def or_empty_def js_def trim_def is_ws_def)
  from text_fallback_first_paragraph [OF s1, of "[]" ?p1 "[?p2]"] h1 t1
  have r1: "extractField two_paragraph_container REVIEW_SELECTORS_text (js ''text'') True
     = Inr (js ''Arrived on time, works.'')" by simp
  from text_fallback_first_paragraph [OF s2, of _ _ _ "[Returns (Some (js ''Great!'')), Returns None]" ?tc] h2
  have "\<exists>l\<in>set [js ''Verified purchase in March'', js ''Would recommend this shop to anyone''].
                      extractField two_line_container REVIEW_SELECTORS_text (js ''text'') True = Inr l
                      \<and> (\<forall>l'\<in>set [js ''Verified purchase in March'', js ''Would recommend this shop to anyone''].
                            length l' \<le> length l)"
    unfolding two_line_lines by simp
  then have r2: "extractField two_line_container REVIEW_SELECTORS_text (js ''text'') True
     = Inr (js ''Would recommend this shop to anyone'')"
    by (auto simp: js_def)
  from r1 r2 show ?thesis by simp
qed

text \<open>
  Claim C6 as stated fails: with two paragraphs longer than 20 code units, the first one is
  returned although the second one is longer.
\<close>

theorem text_fallback_longest_counterexample:
  "extractField two_paragraph_container REVIEW_SELECTORS_text (js ''text'') True
     = Inr (js ''Arrived on time, works.'')
   \<and> c_paragraphs two_paragraph_container = Returns
        [Returns (Some (js ''Arrived on time, works.'')),
         Returns (Some (js ''The product arrived on time and works exactly as described.''))]
   \<and> 20 < length (js ''Arrived on time, works.'')
   \<and> length (js ''Arrived on time, works.'')
       < length (js ''The product arrived on time and works exactly as described.'')"
proof -
  have "try_selectors two_paragraph_container REVIEW_SELECTORS_text (js ''text'') = None"
    by (rule try_selectors_no_match) (simp add: two_paragraph_container_def)
  moreover have "text_fallback two_paragraph_container = Some (js ''Arrived on time, works.'')"
    by (simp add: text_fallback_def two_paragraph_container_def or_empty_def js_def trim_def is_ws_def)
  ultimately show ?thesis
    by (simp add: extractField_def two_paragraph_container_def js_def)
qed

lemma extractField_no_text:
  "extractField no_text_container REVIEW_SELECTORS_text (js ''text'') True
     = Inl (required_field_error (js ''text''))"
proof -
  have "try_selectors no_text_container REVIEW_SELECTORS_text (js ''text'') = None"
    by (rule try_selectors_no_match) (simp add: no_text_container_def)
  moreover have "text_fallback no_text_container = None"
    by (simp add: text_fallback_def no_text_container_def or_empty_def js_def trim_def is_ws_def
        substantial_lines_def split_lf_def longest_line_def)
  ultimately show ?thesis by (simp add: extractField_def)
qed

section \<open>Properties of the orchestrator\<close>

lemma filter_unique_seen:
  "snd (filter_unique reviews seen) = seen \<union> reviewKey ` set reviews"
  by (induction reviews arbitrary: seen) (auto simp: case_prod_beta)

lemma filter_unique_seen_grows: "seen \<subseteq> snd (filter_unique reviews seen)"
  by (auto simp: filter_unique_seen)

lemma filter_unique_kept_keys:
  "reviewKey ` set (fst (filter_unique reviews seen)) = reviewKey ` set reviews - seen"
  by (induction reviews arbitrary: seen) (auto simp: case_prod_beta)

lemma filter_unique_distinct:
  "distinct (map reviewKey (fst (filter_unique reviews seen)))"
proof (induction reviews arbitrary: seen)
  case Nil
  then show ?case by simp
next
  case (Cons r rs)
  show ?case
  proof (cases "reviewKey r \<in> seen")
    case True
    then show ?thesis using Cons by simp
  next
    case False
    have "reviewKey r \<notin> reviewKey ` set (fst (filter_unique rs (insert (reviewKey r) seen)))"
      by (simp add: filter_unique_kept_keys)
    then show ?thesis using False Cons [of "insert (reviewKey r) seen"]
      by (simp add: case_prod_beta)
  qed
qed

text \<open>
  Claim C3. A record is to be kept iff its identity key, the tuple
  (text, reviewerName, date), has not been seen. The code keys the set by the string
  \<open>text|reviewerName|date\<close>: two reviews with different tuples and the same string are
  taken for duplicates, and the second one is dropped.
\<close>

theorem dedup_key_collision:
  "filter_unique [review_a, review_b] {} = ([review_a], {js ''Great|Bob|Smith|2024-01-15''})
   \<and> (tr_text review_a, tr_reviewerName review_a, tr_date review_a)
       \<noteq> (tr_text review_b, tr_reviewerName review_b, tr_date review_b)"
  by (simp add: review_a_def review_b_def reviewKey_def js_def)

lemma nat_to_string_50: "nat_to_string 50 = js ''50''"
  by (simp add: nat_to_string_simps js_def)

lemma nat_to_string_1: "nat_to_string (Suc 0) = js ''1''"
  by (subst nat_to_string_simps) (simp add: js_def)

lemma replace_first_at_end:
  assumes "pat \<noteq> []"
  shows "\<forall>i<length base. take (length pat) (drop i (base @ pat)) \<noteq> pat \<Longrightarrow>
         replace_first (base @ pat) pat rep = base @ rep"
proof (induction base)
  case Nil
  then show ?case using assms by (cases pat) simp_all
next
  case (Cons b bs)
  from Cons.prems have 0: "take (length pat) ((b # bs) @ pat) \<noteq> pat" by force
  have "\<forall>i<length bs. take (length pat) (drop i (bs @ pat)) \<noteq> pat"
  proof (intro allI impI)
    fix i assume "i < length bs"
    then have "Suc i < length (b # bs)" by simp
    with Cons.prems have "take (length pat) (drop (Suc i) ((b # bs) @ pat)) \<noteq> pat" by blast
    then show "take (length pat) (drop i (bs @ pat)) \<noteq> pat" by simp
  qed
  then have "replace_first (bs @ pat) pat rep = bs @ rep" by (rule Cons.IH)
  then show ?case using 0 by simp
qed

lemma checkpointFilename_csv:
  assumes "\<forall>i<length base. take 4 (drop i (base @ js ''.csv'')) \<noteq> js ''.csv''"
  shows "checkpointFilename (base @ js ''.csv'') n
           = base @ js ''_checkpoint_page'' @ nat_to_string n @ js ''.csv''"
proof -
  have "length (js ''.csv'') = 4" "js ''.csv'' \<noteq> []" by (simp_all add: js_def)
  then show ?thesis
    using assms replace_first_at_end [of "js ''.csv''" base] by (simp add: checkpointFilename_def)
qed

lemma checkpointFilename_reviews_csv:
  "checkpointFilename (js ''reviews.csv'') 50 = js ''reviews_checkpoint_page50.csv''"
  by (simp add: checkpointFilename_def nat_to_string_50) (simp add: js_def)

lemma checkpoint_failure_continues:
  "p_checkpoint p = Inl e \<Longrightarrow>
   checkpoint config p st =
     st\<lparr>events := events st @
            [ExportCall (checkpointFilename (outputFilename config) (pagesProcessed st)) (allReviews st),
             LogWarn (js ''Failed to save checkpoint: '' @ error_message e)]\<rparr>"
  by (simp add: checkpoint_def)

text \<open>
  Claim C9. The checkpoint file is to be named \<open><base>_checkpoint_page<N>.csv\<close>. With the
  output file name \<open>reviews.txt\<close>, which contains no \<open>.csv\<close>, the checkpoint made after the
  50th page is exported under the name \<open>reviews.txt\<close>, the primary output file itself.
\<close>

theorem checkpoint_name_without_csv:
  "checkpointFilename (js ''reviews.txt'') 50 = js ''reviews.txt''
   \<and> events (snd (process_page id txt_config empty_last_page state_after_49))
       = [ExportCall (js ''reviews.txt'') []]"
proof -
  have c: "checkpointFilename (js ''reviews.txt'') 50 = js ''reviews.txt''"
    by (simp add: checkpointFilename_def nat_to_string_50) (simp add: js_def)
  have "filter_unique [] {} = ([], {})" by simp
  then show ?thesis
    by (simp add: c process_page_def page_body_def checkpoint_def txt_config_def
        empty_last_page_def state_after_49_def init_state_def Let_def)
qed

text \<open>
  Claim C2 as stated fails: an exception on the first page, with no record collected yet,
  does not propagate; the run returns normally with the error message recorded and an
  export of zero records.
\<close>

theorem page_error_not_fatal_counterexample:
  "scrape id csv_config env_first_page_fails =
     Some (Inr \<lparr>totalReviews = 0, sr_pagesProcessed = 0, outputFile = js ''/out/reviews.csv'',
                sr_errors = [js ''Error processing page 1: No review structure found'']\<rparr>,
           [ExportCall (js ''reviews.csv'') []])"
  by (simp add: scrape_def env_first_page_fails_def csv_config_def init_state_def
      scrape_loop_simps process_page_def page_body_def failing_page_def plain_error_def
      error_message_def nat_to_string_1)
     (simp add: js_def)

text \<open>
  Claim C1 as stated fails twice: an abort with zero records (the browser does not start)
  invokes no export; and when the export after the loop fails with records accumulated and
  the export of the partial data then succeeds, the run returns a result instead of
  re-raising the error.
\<close>

theorem abort_without_export_counterexample:
  "scrape id csv_config env_init_fails = Some (Inl (plain_error ''browser launch failed''), [])
   \<and> scrape id csv_config env_export_fails_once =
       Some (Inr \<lparr>totalReviews = 1, sr_pagesProcessed = 1, outputFile = js ''/out/reviews.csv'',
                  sr_errors = [js ''EACCES'']\<rparr>,
             [ExportCall (js ''reviews.csv'') [transform id one_review],
              ExportCall (js ''reviews.csv'') [transform id one_review]])"
proof -
  have 1: "scrape id csv_config env_init_fails = Some (Inl (plain_error ''browser launch failed''), [])"
    by (simp add: scrape_def env_init_fails_def critical_def init_state_def)
  have f: "filter_unique [transform id one_review] {} =
            ([transform id one_review], {reviewKey (transform id one_review)})"
    by simp
  have l: "scrape_loop id csv_config [one_review_page] init_state =
           Some (init_state\<lparr>seenReviews := {reviewKey (transform id one_review)},
                   allReviews := [transform id one_review], pagesProcessed := 1,
                   hasNextPage := False\<rparr>)"
    by (simp add: csv_config_def init_state_def scrape_loop_simps process_page_def
        page_body_def one_review_page_def f Let_def)
  have 2: "scrape id csv_config env_export_fails_once =
       Some (Inr \<lparr>totalReviews = 1, sr_pagesProcessed = 1, outputFile = js ''/out/reviews.csv'',
                  sr_errors = [js ''EACCES'']\<rparr>,
             [ExportCall (js ''reviews.csv'') [transform id one_review],
              ExportCall (js ''reviews.csv'') [transform id one_review]])"
    by (simp add: scrape_def env_export_fails_once_def l critical_def Let_def)
       (simp add: init_state_def csv_config_def plain_error_def error_message_def)
  from 1 2 show ?thesis by simp
qed

lemma scrape_loop_stopped:
  "\<not> (hasNextPage st \<and> enat (currentPage st) \<le> maxPages config) \<Longrightarrow>
   scrape_loop normalizeDate config ps st = Some st"
  by (cases ps) (auto simp: scrape_loop_simps)

lemma checkpoint_fields:
  "allReviews (checkpoint config p st) = allReviews st"
  "currentPage (checkpoint config p st) = currentPage st"
  "hasNextPage (checkpoint config p st) = hasNextPage st"
  "errors (checkpoint config p st) = errors st"
  by (simp_all add: checkpoint_def Let_def split: sum.splits)

lemma page_body_Inl_allReviews:
  assumes "page_body normalizeDate config p st = Inl (e, s)"
  shows "\<exists>new. allReviews s = allReviews st @ new"
  using assms
  by (auto simp: page_body_def Let_def checkpoint_fields split: sum.splits if_splits)

text \<open>
  Claim C2, as amended. Whenever the body of an iteration throws, whatever the cause and
  however many records have been collected, the loop stops with \<open>hasNextPage = false\<close> and
  returns its state: the error message is appended to the recorded errors and every record
  collected before the iteration is preserved. The exception never leaves the loop.
\<close>

theorem page_error_stops_loop:
  assumes "page_body normalizeDate config p st = Inl (e, s)"
    and "hasNextPage st" and "enat (currentPage st) \<le> maxPages config"
  shows "scrape_loop normalizeDate config (p # ps) st =
           Some (s\<lparr>errors := errors s @
                       [js ''Error processing page '' @ nat_to_string (currentPage s) @ js '': ''
                        @ error_message e],
                   hasNextPage := False\<rparr>)
       \<and> (\<exists>new. allReviews s = allReviews st @ new)"
proof -
  let ?s' = "s\<lparr>errors := errors s @
                       [js ''Error processing page '' @ nat_to_string (currentPage s) @ js '': ''
                        @ error_message e],
                   hasNextPage := False\<rparr>"
  have "process_page normalizeDate config p st = (False, ?s')"
    using assms(1) by (simp add: process_page_def)
  moreover have "scrape_loop normalizeDate config ps ?s' = Some ?s'"
    by (rule scrape_loop_stopped) simp
  ultimately have "scrape_loop normalizeDate config (p # ps) st = Some ?s'"
    using assms(2,3) by (simp add: scrape_loop_simps)
  then show ?thesis using page_body_Inl_allReviews [OF assms(1)] by simp
qed

theorem page_error_stops_loop_witness:
  "scrape_loop id csv_config [failing_page, one_review_page] init_state =
     Some (init_state\<lparr>errors := [js ''Error processing page 1: No review structure found''],
             hasNextPage := False\<rparr>)"
proof -
  have b: "page_body id csv_config failing_page init_state
             = Inl (plain_error ''No review structure found'', init_state)"
    by (simp add: page_body_def failing_page_def)
  have h: "hasNextPage init_state" "enat (currentPage init_state) \<le> maxPages csv_config"
    by (simp_all add: init_state_def csv_config_def)
  have m: "js ''Error processing page '' @ nat_to_string (currentPage init_state) @ js '': ''
             @ error_message (plain_error ''No review structure found'')
           = js ''Error processing page 1: No review structure found''"
    by (simp add: init_state_def nat_to_string_1 error_message_def plain_error_def) (simp add: js_def)
  from page_error_stops_loop [OF b h, of "[one_review_page]"] show ?thesis
    unfolding m by (simp add: init_state_def)
qed

text \<open>
  The loop returns on every script that is long enough: with a page cap, when the script
  has as many entries as pages may still be visited; without one, when the last entry of
  the script is a page without a next-page control.
\<close>

lemma process_page_progress:
  assumes "process_page normalizeDate config p st = (False, st')"
  shows "\<not> hasNextPage st' \<or> currentPage st' = currentPage st + 1"
  using assms
  by (auto simp: process_page_def page_body_def Let_def checkpoint_fields
      split: sum.splits if_splits prod.splits)

lemma scrape_loop_returns:
  "maxPages config < enat (currentPage st + length pages) \<Longrightarrow>
   \<exists>st'. scrape_loop normalizeDate config pages st = Some st'"
proof (induction pages arbitrary: st)
  case Nil
  then have "\<not> enat (currentPage st) \<le> maxPages config" by (simp add: not_le)
  then show ?case by (simp add: scrape_loop_simps)
next
  case (Cons p ps)
  show ?case
  proof (cases "hasNextPage st \<and> enat (currentPage st) \<le> maxPages config")
    case False
    then show ?thesis by (auto simp: scrape_loop_simps)
  next
    case True
    obtain b st' where pp: "process_page normalizeDate config p st = (b, st')"
      by (cases "process_page normalizeDate config p st")
    show ?thesis
    proof (cases b)
      case True
      then show ?thesis using \<open>hasNextPage st \<and> enat (currentPage st) \<le> maxPages config\<close> pp
        by (simp add: scrape_loop_simps)
    next
      case False
      with pp process_page_progress [of normalizeDate config p st st']
      have "\<not> hasNextPage st' \<or> currentPage st' = currentPage st + 1" by simp
      then have "\<exists>s. scrape_loop normalizeDate config ps st' = Some s"
      proof
        assume "\<not> hasNextPage st'"
        then show ?thesis by (simp add: scrape_loop_stopped)
      next
        assume "currentPage st' = currentPage st + 1"
        then have "maxPages config < enat (currentPage st' + length ps)" using Cons.prems by simp
        then show ?thesis by (rule Cons.IH)
      qed
      then show ?thesis using True pp False by (simp add: scrape_loop_simps)
    qed
  qed
qed

lemma process_page_last:
  assumes "p_detect p = Inr False" "process_page normalizeDate config p st = (b, st')"
  shows "b \<or> \<not> hasNextPage st'"
  using assms
  by (auto simp: process_page_def page_body_def Let_def checkpoint_fields
      split: sum.splits if_splits prod.splits)

lemma scrape_loop_returns_last_page:
  "pages \<noteq> [] \<Longrightarrow> p_detect (last pages) = Inr False \<Longrightarrow>
   \<exists>st'. scrape_loop normalizeDate config pages st = Some st'"
proof (induction pages arbitrary: st)
  case Nil
  then show ?case by simp
next
  case (Cons p ps)
  show ?case
  proof (cases "hasNextPage st \<and> enat (currentPage st) \<le> maxPages config")
    case False
    then show ?thesis by (auto simp: scrape_loop_simps)
  next
    case cond: True
    obtain b st' where pp: "process_page normalizeDate config p st = (b, st')"
      by (cases "process_page normalizeDate config p st")
    show ?thesis
    proof (cases b)
      case True
      then show ?thesis using cond pp by (simp add: scrape_loop_simps)
    next
      case False
      have "\<exists>s. scrape_loop normalizeDate config ps st' = Some s"
      proof (cases "ps = []")
        case True
        then have "p_detect p = Inr False" using Cons.prems by simp
        with process_page_last [OF this pp] False have "\<not> hasNextPage st'" by simp
        then show ?thesis by (simp add: scrape_loop_stopped)
      next
        case ne: False
        then have "p_detect (last ps) = Inr False" using Cons.prems by simp
        with ne show ?thesis by (rule Cons.IH)
      qed
      then show ?thesis using cond pp False by (simp add: scrape_loop_simps)
    qed
  qed
qed

text \<open>
  Claim C1, as amended. When the loop ends, the accumulated records are exported to the
  primary output file, also when there are none. On a critical error an export is attempted
  only if at least one record has been accumulated: with no record (a failure before the
  loop, or a failed export of zero records) the error is re-raised without a further export;
  with records, the error is re-raised when the export of the partial data fails too, and
  otherwise the run returns a result that records the error message.
\<close>

theorem scrape_finalization:
  "(e_init env = Inl e \<longrightarrow> scrape normalizeDate config env = Some (Inl e, []))
   \<and> (e_init env = Inr () \<and> e_navigate env = Inr False \<longrightarrow>
        scrape normalizeDate config env = Some (Inl navigation_error, []))
   \<and> (e_init env = Inr () \<and> e_navigate env = Inr True
        \<and> scrape_loop normalizeDate config (e_pages env) init_state = Some st \<longrightarrow>
        (case e_export env of
           Inr path \<Rightarrow>
             scrape normalizeDate config env =
               Some (Inr \<lparr>totalReviews = length (allReviews st),
                          sr_pagesProcessed = pagesProcessed st,
                          outputFile = path, sr_errors = errors st\<rparr>,
                     events st @ [ExportCall (outputFilename config) (allReviews st)])
         | Inl e' \<Rightarrow>
             if allReviews st = [] then
               scrape normalizeDate config env =
                 Some (Inl e', events st @ [ExportCall (outputFilename config) []])
             else
               (case e_export_partial env of
                  Inr path \<Rightarrow>
                    scrape normalizeDate config env =
                      Some (Inr \<lparr>totalReviews = length (allReviews st),
                                 sr_pagesProcessed = pagesProcessed st,
                                 outputFile = path,
                                 sr_errors = errors st @ [error_message e']\<rparr>,
                            events st @ [ExportCall (outputFilename config) (allReviews st),
                                         ExportCall (outputFilename config) (allReviews st)])
                | Inl e'' \<Rightarrow>
                    scrape normalizeDate config env =
                      Some (Inl e',
                            events st @ [ExportCall (outputFilename config) (allReviews st),
                                         ExportCall (outputFilename config) (allReviews st)]))))"
proof (intro conjI impI)
  assume "e_init env = Inl e"
  then show "scrape normalizeDate config env = Some (Inl e, [])"
    by (simp add: scrape_def critical_def init_state_def)
next
  assume "e_init env = Inr () \<and> e_navigate env = Inr False"
  then show "scrape normalizeDate config env = Some (Inl navigation_error, [])"
    by (simp add: scrape_def critical_def init_state_def)
next
  assume a: "e_init env = Inr () \<and> e_navigate env = Inr True
        \<and> scrape_loop normalizeDate config (e_pages env) init_state = Some st"
  show "(case e_export env of
           Inr path \<Rightarrow>
             scrape normalizeDate config env =
               Some (Inr \<lparr>totalReviews = length (allReviews st),
                          sr_pagesProcessed = pagesProcessed st,
                          outputFile = path, sr_errors = errors st\<rparr>,
                     events st @ [ExportCall (outputFilename config) (allReviews st)])
         | Inl e' \<Rightarrow>
             if allReviews st = [] then
               scrape normalizeDate config env =
                 Some (Inl e', events st @ [ExportCall (outputFilename config) []])
             else
               (case e_export_partial env of
                  Inr path \<Rightarrow>
                    scrape normalizeDate config env =
                      Some (Inr \<lparr>totalReviews = length (allReviews st),
                                 sr_pagesProcessed = pagesProcessed st,
                                 outputFile = path,
                                 sr_errors = errors st @ [error_message e']\<rparr>,
                            events st @ [ExportCall (outputFilename config) (allReviews st),
                                         ExportCall (outputFilename config) (allReviews st)])
                | Inl e'' \<Rightarrow>
                    scrape normalizeDate config env =
                      Some (Inl e',
                            events st @ [ExportCall (outputFilename config) (allReviews st),
                                         ExportCall (outputFilename config) (allReviews st)])))"
    using a by (simp add: scrape_def critical_def Let_def split: sum.splits)
qed

lemma loop_one_review:
  "scrape_loop id csv_config [one_review_page] init_state =
     Some (init_state\<lparr>seenReviews := {reviewKey (transform id one_review)},
             allReviews := [transform id one_review], pagesProcessed := 1,
             hasNextPage := False\<rparr>)"
proof -
  have f: "filter_unique [transform id one_review] {} =
            ([transform id one_review], {reviewKey (transform id one_review)})"
    by simp
  show ?thesis
    by (simp add: csv_config_def init_state_def scrape_loop_simps process_page_def
        page_body_def one_review_page_def f Let_def)
qed

lemma loop_empty_page:
  "scrape_loop id csv_config [empty_last_page] init_state =
     Some (init_state\<lparr>pagesProcessed := 1, hasNextPage := False\<rparr>)"
  by (simp add: csv_config_def init_state_def scrape_loop_simps process_page_def
      page_body_def empty_last_page_def Let_def)

theorem scrape_finalization_witness:
  "scrape id csv_config env_init_fails = Some (Inl (plain_error ''browser launch failed''), [])
   \<and> scrape id csv_config env_navigation_fails = Some (Inl navigation_error, [])
   \<and> scrape id csv_config env_empty_site =
       Some (Inr \<lparr>totalReviews = 0, sr_pagesProcessed = 1, outputFile = js ''/out/reviews.csv'',
                  sr_errors = []\<rparr>,
             [ExportCall (js ''reviews.csv'') []])
   \<and> scrape id csv_config env_empty_export_fails =
       Some (Inl (plain_error ''EACCES''), [ExportCall (js ''reviews.csv'') []])
   \<and> scrape id csv_config env_both_exports_fail =
       Some (Inl (plain_error ''EACCES''),
             [ExportCall (js ''reviews.csv'') [transform id one_review],
              ExportCall (js ''reviews.csv'') [transform id one_review]])
   \<and> scrape id csv_config env_export_fails_once =
       Some (Inr \<lparr>totalReviews = 1, sr_pagesProcessed = 1, outputFile = js ''/out/reviews.csv'',
                  sr_errors = [js ''EACCES'']\<rparr>,
             [ExportCall (js ''reviews.csv'') [transform id one_review],
              ExportCall (js ''reviews.csv'') [transform id one_review]])"
proof -
  have 1: "scrape id csv_config env_init_fails = Some (Inl (plain_error ''browser launch failed''), [])"
    using scrape_finalization [of env_init_fails "plain_error ''browser launch failed''" id csv_config]
    by (simp add: env_init_fails_def)
  have 2: "scrape id csv_config env_navigation_fails = Some (Inl navigation_error, [])"
    using scrape_finalization [of env_navigation_fails _ id csv_config]
    by (simp add: env_navigation_fails_def)
  have 3: "scrape id csv_config env_empty_site =
       Some (Inr \<lparr>totalReviews = 0, sr_pagesProcessed = 1, outputFile = js ''/out/reviews.csv'',
                  sr_errors = []\<rparr>,
             [ExportCall (js ''reviews.csv'') []])"
    using scrape_finalization [of env_empty_site _ id csv_config
        "init_state\<lparr>pagesProcessed := 1, hasNextPage := False\<rparr>"] loop_empty_page
    by (simp add: env_empty_site_def init_state_def csv_config_def)
  have 4: "scrape id csv_config env_empty_export_fails =
       Some (Inl (plain_error ''EACCES''), [ExportCall (js ''reviews.csv'') []])"
    using scrape_finalization [of env_empty_export_fails _ id csv_config
        "init_state\<lparr>pagesProcessed := 1, hasNextPage := False\<rparr>"] loop_empty_page
    by (simp add: env_empty_export_fails_def init_state_def csv_config_def)
  have 5: "scrape id csv_config env_both_exports_fail =
       Some (Inl (plain_error ''EACCES''),
             [ExportCall (js ''reviews.csv'') [transform id one_review],
              ExportCall (js ''reviews.csv'') [transform id one_review]])"
    using scrape_finalization [of env_both_exports_fail _ id csv_config
        "init_state\<lparr>seenReviews := {reviewKey (transform id one_review)},
             allReviews := [transform id one_review], pagesProcessed := 1,
             hasNextPage := False\<rparr>"] loop_one_review
    by (simp add: env_both_exports_fail_def init_state_def csv_config_def)
  have 6: "scrape id csv_config env_export_fails_once =
       Some (Inr \<lparr>totalReviews = 1, sr_pagesProcessed = 1, outputFile = js ''/out/reviews.csv'',
                  sr_errors = [js ''EACCES'']\<rparr>,
             [ExportCall (js ''reviews.csv'') [transform id one_review],
              ExportCall (js ''reviews.csv'') [transform id one_review]])"
    using scrape_finalization [of env_export_fails_once _ id csv_config
        "init_state\<lparr>seenReviews := {reviewKey (transform id one_review)},
             allReviews := [transform id one_review], pagesProcessed := 1,
             hasNextPage := False\<rparr>"] loop_one_review
    by (simp add: env_export_fails_once_def init_state_def csv_config_def plain_error_def
        error_message_def)
  from 1 2 3 4 5 6 show ?thesis by simp
qed

end
